theory Spec2Isabelle
  imports Main
begin

section \<open>The sharded LRU store of STORM (store.h, store.cpp)\<close>

text \<open>
  The embedding follows \<^verbatim>\<open>src/STORM_Backend/src/store.cpp\<close> function by function.
  The per-shard mutex is not modelled: every operation below is one call run to
  completion, which is what a caller holding the shard's lock observes.

  Undefined behaviour of the C++ containers is written out as an error value, so that
  "the code returns" is a statement of its own.
\<close>

datatype error =
    EmptyList          \<comment> \<open>\<^verbatim>\<open>back()\<close> or \<^verbatim>\<open>pop_back()\<close> on an empty \<^verbatim>\<open>std::list\<close>\<close>
  | InvalidIterator    \<comment> \<open>\<^verbatim>\<open>splice\<close> or \<^verbatim>\<open>erase\<close> with an iterator that is no node of the list\<close>
  | DivisionByZero     \<comment> \<open>\<^verbatim>\<open>% shards.size()\<close> with no shard\<close>

subsection \<open>\<^verbatim>\<open>std::list<std::string>\<close> with stable iterators\<close>

text \<open>
  A node of the list is its address and the key it holds; the list is the sequence of
  its nodes, front first. An iterator is the address of a node, or \<^verbatim>\<open>end()\<close>.
  Moving a node keeps its address, which is what \<^verbatim>\<open>Entry::recencyIt\<close> relies on.
\<close>

datatype iterator = At nat | End

type_synonym node = "nat \<times> string"

definition list_begin :: "node list \<Rightarrow> iterator" where
  "list_begin l = (case l of [] \<Rightarrow> End | n # _ \<Rightarrow> At (fst n))"

definition node_at :: "node list \<Rightarrow> iterator \<Rightarrow> node option" where
  "node_at l it = (case it of End \<Rightarrow> None | At a \<Rightarrow> find (\<lambda>n. fst n = a) l)"

text \<open>\<^verbatim>\<open>l.splice(l.begin(), l, it)\<close>: the node \<open>it\<close> becomes the front node.\<close>

definition splice_begin :: "node list \<Rightarrow> iterator \<Rightarrow> error + node list" where
  "splice_begin l it =
     (case node_at l it of
        None \<Rightarrow> Inl InvalidIterator
      | Some n \<Rightarrow> Inr (n # filter (\<lambda>m. fst m \<noteq> fst n) l))"

text \<open>\<^verbatim>\<open>l.erase(it)\<close>.\<close>

definition list_erase :: "node list \<Rightarrow> iterator \<Rightarrow> error + node list" where
  "list_erase l it =
     (case node_at l it of
        None \<Rightarrow> Inl InvalidIterator
      | Some n \<Rightarrow> Inr (filter (\<lambda>m. fst m \<noteq> fst n) l))"

text \<open>\<^verbatim>\<open>l.back()\<close> and \<^verbatim>\<open>l.pop_back()\<close>.\<close>

definition list_back :: "node list \<Rightarrow> error + string" where
  "list_back l = (if l = [] then Inl EmptyList else Inr (snd (last l)))"

definition list_pop_back :: "node list \<Rightarrow> error + node list" where
  "list_pop_back l = (if l = [] then Inl EmptyList else Inr (butlast l))"

text \<open>
  \<^verbatim>\<open>l.push_front(key)\<close> allocates a node; its address differs from the address of
  every node of the list. The model takes the address one above the largest in use; the
  proofs use only that it is not in use (\<open>new_node_fresh\<close> below).
\<close>

definition new_node :: "node list \<Rightarrow> nat" where
  "new_node l = Suc (Max (set (0 # map fst l)))"

definition push_front :: "node list \<Rightarrow> string \<Rightarrow> node list" where
  "push_front l key = (new_node l, key) # l"

subsection \<open>Entry, Shard, Store (store.h)\<close>

text \<open>
  The field \<^verbatim>\<open>Entry::value\<close> is \<open>entry_value\<close> here, \<open>value\<close> being a keyword of
  Isabelle. \<^verbatim>\<open>Shard::shardLock\<close> has no counterpart.
\<close>

record Entry =
  entry_value :: string
  recencyIt :: iterator

record Shard =
  store :: "string \<rightharpoonup> Entry"
  recencyList :: "node list"
  capacity :: nat

record Store =
  shards :: "Shard list"

text \<open>\<^verbatim>\<open>unordered_map::emplace\<close> inserts only when the key is absent.\<close>

definition emplace :: "(string \<rightharpoonup> Entry) \<Rightarrow> string \<Rightarrow> Entry \<Rightarrow> (string \<rightharpoonup> Entry)" where
  "emplace m key e = (case m key of None \<Rightarrow> m(key \<mapsto> e) | Some _ \<Rightarrow> m)"

text \<open>The body of the constructor's loop, and the constructor.\<close>

definition new_Shard :: "nat \<Rightarrow> Shard" where
  "new_Shard shard_capacity = \<lparr>store = Map.empty, recencyList = [], capacity = shard_capacity\<rparr>"

definition new_Store :: "nat \<Rightarrow> nat \<Rightarrow> Store" where
  "new_Store shard_capacity total_shards = \<lparr>shards = replicate total_shards (new_Shard shard_capacity)\<rparr>"

subsection \<open>Per-shard operations (store.cpp, lines 90 to 166)\<close>

definition putInShard :: "Shard \<Rightarrow> string \<Rightarrow> string \<Rightarrow> error + (Shard \<times> bool)" where
  "putInShard shard key val =
     (case store shard key of
        Some entry \<Rightarrow>
          (case splice_begin (recencyList shard) (recencyIt entry) of
             Inl e \<Rightarrow> Inl e
           | Inr l \<Rightarrow>
               Inr (shard\<lparr>store := (store shard)(key \<mapsto> \<lparr>entry_value = val, recencyIt = list_begin l\<rparr>),
                          recencyList := l\<rparr>, True))
      | None \<Rightarrow>
          (case (if capacity shard \<le> card (dom (store shard)) then
                   (case list_back (recencyList shard) of
                      Inl e \<Rightarrow> Inl e
                    | Inr lru_key \<Rightarrow>
                        (case list_pop_back (recencyList shard) of
                           Inl e \<Rightarrow> Inl e
                         | Inr l \<Rightarrow> Inr (shard\<lparr>store := (store shard)(lru_key := None), recencyList := l\<rparr>)))
                 else Inr shard) of
             Inl e \<Rightarrow> Inl e
           | Inr sh \<Rightarrow>
               (let l = push_front (recencyList sh) key in
                Inr (sh\<lparr>store := emplace (store sh) key \<lparr>entry_value = val, recencyIt = list_begin l\<rparr>,
                        recencyList := l\<rparr>, True))))"

text \<open>
  The output parameter \<^verbatim>\<open>value\<close> is passed in and returned: the second component of the
  result is what the caller's variable holds after the call.
\<close>

definition getFromShard :: "Shard \<Rightarrow> string \<Rightarrow> string \<Rightarrow> error + (Shard \<times> string \<times> bool)" where
  "getFromShard shard key val =
     (case store shard key of
        None \<Rightarrow> Inr (shard, val, False)
      | Some entry \<Rightarrow>
          (case splice_begin (recencyList shard) (recencyIt entry) of
             Inl e \<Rightarrow> Inl e
           | Inr l \<Rightarrow>
               Inr (shard\<lparr>store := (store shard)(key \<mapsto> entry\<lparr>recencyIt := list_begin l\<rparr>),
                          recencyList := l\<rparr>, entry_value entry, True)))"

definition delFromShard :: "Shard \<Rightarrow> string \<Rightarrow> error + (Shard \<times> bool)" where
  "delFromShard shard key =
     (case store shard key of
        None \<Rightarrow> Inr (shard, False)
      | Some entry \<Rightarrow>
          (case list_erase (recencyList shard) (recencyIt entry) of
             Inl e \<Rightarrow> Inl e
           | Inr l \<Rightarrow> Inr (shard\<lparr>store := (store shard)(key := None), recencyList := l\<rparr>, True)))"

text \<open>The body of the loop of \<^verbatim>\<open>Store::clear\<close>.\<close>

definition clearShard :: "Shard \<Rightarrow> Shard" where
  "clearShard shard = shard\<lparr>store := Map.empty, recencyList := []\<rparr>"

subsection \<open>Store operations (store.cpp, lines 40 to 75 and 178 to 215)\<close>

text \<open>
  \<^verbatim>\<open>std::hash<std::string>\<close> belongs to the C++ library: it is the parameter \<open>hash\<close>,
  a function of the key alone. A \<^verbatim>\<open>size_t\<close> is read as the natural number it denotes.
\<close>

definition shardIndex :: "(string \<Rightarrow> nat) \<Rightarrow> Store \<Rightarrow> string \<Rightarrow> error + nat" where
  "shardIndex hash s key =
     (if length (shards s) = 0 then Inl DivisionByZero
      else Inr (hash key mod length (shards s)))"

definition put :: "(string \<Rightarrow> nat) \<Rightarrow> Store \<Rightarrow> string \<Rightarrow> string \<Rightarrow> error + (Store \<times> bool)" where
  "put hash s key val =
     (case shardIndex hash s key of
        Inl e \<Rightarrow> Inl e
      | Inr i \<Rightarrow>
          (case putInShard (shards s ! i) key val of
             Inl e \<Rightarrow> Inl e
           | Inr (sh, r) \<Rightarrow> Inr (s\<lparr>shards := (shards s)[i := sh]\<rparr>, r)))"

definition get :: "(string \<Rightarrow> nat) \<Rightarrow> Store \<Rightarrow> string \<Rightarrow> string \<Rightarrow> error + (Store \<times> string \<times> bool)" where
  "get hash s key val =
     (case shardIndex hash s key of
        Inl e \<Rightarrow> Inl e
      | Inr i \<Rightarrow>
          (case getFromShard (shards s ! i) key val of
             Inl e \<Rightarrow> Inl e
           | Inr (sh, v, r) \<Rightarrow> Inr (s\<lparr>shards := (shards s)[i := sh]\<rparr>, v, r)))"

definition del :: "(string \<Rightarrow> nat) \<Rightarrow> Store \<Rightarrow> string \<Rightarrow> error + (Store \<times> bool)" where
  "del hash s key =
     (case shardIndex hash s key of
        Inl e \<Rightarrow> Inl e
      | Inr i \<Rightarrow>
          (case delFromShard (shards s ! i) key of
             Inl e \<Rightarrow> Inl e
           | Inr (sh, r) \<Rightarrow> Inr (s\<lparr>shards := (shards s)[i := sh]\<rparr>, r)))"

text \<open>
  \<^verbatim>\<open>Store::putMany\<close>. The first loop files each pair under its shard; the second
  visits the shards in index order and, for a shard whose batch is not empty, runs the
  inner loop \<open>putBatch\<close> over the batch.
\<close>

fun assignBatches ::
  "(string \<Rightarrow> nat) \<Rightarrow> Store \<Rightarrow> (string \<times> string) list \<Rightarrow> (string \<times> string) list list
     \<Rightarrow> error + (string \<times> string) list list" where
  "assignBatches hash s [] shard_batches = Inr shard_batches"
| "assignBatches hash s (key_value_pair # rest) shard_batches =
     (case shardIndex hash s (fst key_value_pair) of
        Inl e \<Rightarrow> Inl e
      | Inr target_shard_index \<Rightarrow>
          assignBatches hash s rest
            (shard_batches[target_shard_index := shard_batches ! target_shard_index @ [key_value_pair]]))"

fun putBatch :: "Shard \<Rightarrow> (string \<times> string) list \<Rightarrow> error + Shard" where
  "putBatch shard [] = Inr shard"
| "putBatch shard (key_value_pair # rest) =
     (case putInShard shard (fst key_value_pair) (snd key_value_pair) of
        Inl e \<Rightarrow> Inl e
      | Inr (sh, _) \<Rightarrow> putBatch sh rest)"

fun insertBatches :: "(string \<times> string) list list \<Rightarrow> nat list \<Rightarrow> Store \<Rightarrow> error + Store" where
  "insertBatches shard_batches [] s = Inr s"
| "insertBatches shard_batches (shard_index # rest) s =
     (if shard_batches ! shard_index = [] then insertBatches shard_batches rest s
      else
        (case putBatch (shards s ! shard_index) (shard_batches ! shard_index) of
           Inl e \<Rightarrow> Inl e
         | Inr sh \<Rightarrow> insertBatches shard_batches rest (s\<lparr>shards := (shards s)[shard_index := sh]\<rparr>)))"

definition putMany :: "(string \<Rightarrow> nat) \<Rightarrow> Store \<Rightarrow> (string \<times> string) list \<Rightarrow> error + Store" where
  "putMany hash s key_value_pairs =
     (case assignBatches hash s key_value_pairs (replicate (length (shards s)) []) of
        Inl e \<Rightarrow> Inl e
      | Inr shard_batches \<Rightarrow> insertBatches shard_batches [0..<length (shards s)] s)"

definition clear :: "Store \<Rightarrow> Store" where
  "clear s = s\<lparr>shards := map clearShard (shards s)\<rparr>"

subsection \<open>What a shard holds, and when it is well formed\<close>

text \<open>
  \<open>recencyKeys\<close> is the recency sequence as the keys it holds, most recently used first;
  \<open>contents\<close> is the key-value mapping of the index.
\<close>

definition recencyKeys :: "Shard \<Rightarrow> string list" where
  "recencyKeys sh = map snd (recencyList sh)"

definition contents :: "Shard \<Rightarrow> (string \<rightharpoonup> string)" where
  "contents sh = (\<lambda>k. map_option entry_value (store sh k))"

text \<open>
  A shard is well formed when the nodes of the recency list have distinct addresses and
  distinct keys, the index and the list hold the same keys, and the iterator stored with
  each key is the address of the node that holds the key.
\<close>

definition shard_inv :: "Shard \<Rightarrow> bool" where
  "shard_inv sh \<longleftrightarrow>
     distinct (map fst (recencyList sh)) \<and>
     distinct (map snd (recencyList sh)) \<and>
     dom (store sh) = snd ` set (recencyList sh) \<and>
     (\<forall>n \<in> set (recencyList sh). map_option recencyIt (store sh (snd n)) = Some (At (fst n)))"

text \<open>
  A store is well formed when it has a shard and every shard is well formed.
\<close>

definition store_inv :: "Store \<Rightarrow> bool" where
  "store_inv s \<longleftrightarrow> shards s \<noteq> [] \<and> (\<forall>sh \<in> set (shards s). shard_inv sh)"

text \<open>
  Every key held by a shard is a key that \<open>shardIndex\<close> sends to that shard.
\<close>

definition keys_routed :: "(string \<Rightarrow> nat) \<Rightarrow> Store \<Rightarrow> bool" where
  "keys_routed hash s \<longleftrightarrow>
     (\<forall>i < length (shards s). \<forall>k \<in> dom (store (shards s ! i)). hash k mod length (shards s) = i)"

text \<open>Every shard of the store has a positive capacity.\<close>

definition positive_capacity :: "Store \<Rightarrow> bool" where
  "positive_capacity s \<longleftrightarrow> (\<forall>sh \<in> set (shards s). 0 < capacity sh)"

subsection \<open>Sequences of operations\<close>

text \<open>
  The operations a caller can run on one shard, and a run of a sequence of them; the
  run stops at the first error. \<open>Get\<close> carries the key and what the caller's output
  variable holds before the call.
\<close>

datatype shard_op = Put string string | Get string string | Del string | Clear

fun applyOp :: "Shard \<Rightarrow> shard_op \<Rightarrow> error + Shard" where
  "applyOp sh (Put key val) =
     (case putInShard sh key val of Inl e \<Rightarrow> Inl e | Inr (sh', _) \<Rightarrow> Inr sh')"
| "applyOp sh (Get key val) =
     (case getFromShard sh key val of Inl e \<Rightarrow> Inl e | Inr (sh', _, _) \<Rightarrow> Inr sh')"
| "applyOp sh (Del key) =
     (case delFromShard sh key of Inl e \<Rightarrow> Inl e | Inr (sh', _) \<Rightarrow> Inr sh')"
| "applyOp sh Clear = Inr (clearShard sh)"

fun runOps :: "Shard \<Rightarrow> shard_op list \<Rightarrow> error + Shard" where
  "runOps sh [] = Inr sh"
| "runOps sh (x # xs) = (case applyOp sh x of Inl e \<Rightarrow> Inl e | Inr sh' \<Rightarrow> runOps sh' xs)"

text \<open>
  The pairs applied one at a time through the single-key \<open>put\<close>, in the order of the
  sequence: the reference that \<open>putMany\<close> is compared with.
\<close>

fun put_each :: "(string \<Rightarrow> nat) \<Rightarrow> Store \<Rightarrow> (string \<times> string) list \<Rightarrow> error + Store" where
  "put_each hash s [] = Inr s"
| "put_each hash s (key_value_pair # rest) =
     (case put hash s (fst key_value_pair) (snd key_value_pair) of
        Inl e \<Rightarrow> Inl e
      | Inr (s', _) \<Rightarrow> put_each hash s' rest)"

text \<open>
  The operations a caller can run on a store, and a run of a sequence of them.
\<close>

datatype store_op =
  OpPut string string | OpGet string string | OpDel string
  | OpPutMany "(string \<times> string) list" | OpClear

fun applyStoreOp :: "(string \<Rightarrow> nat) \<Rightarrow> Store \<Rightarrow> store_op \<Rightarrow> error + Store" where
  "applyStoreOp hash s (OpPut key val) =
     (case put hash s key val of Inl e \<Rightarrow> Inl e | Inr (s', _) \<Rightarrow> Inr s')"
| "applyStoreOp hash s (OpGet key val) =
     (case get hash s key val of Inl e \<Rightarrow> Inl e | Inr (s', _, _) \<Rightarrow> Inr s')"
| "applyStoreOp hash s (OpDel key) =
     (case del hash s key of Inl e \<Rightarrow> Inl e | Inr (s', _) \<Rightarrow> Inr s')"
| "applyStoreOp hash s (OpPutMany key_value_pairs) = putMany hash s key_value_pairs"
| "applyStoreOp hash s OpClear = Inr (clear s)"

fun runStoreOps :: "(string \<Rightarrow> nat) \<Rightarrow> Store \<Rightarrow> store_op list \<Rightarrow> error + Store" where
  "runStoreOps hash s [] = Inr s"
| "runStoreOps hash s (x # xs) =
     (case applyStoreOp hash s x of Inl e \<Rightarrow> Inl e | Inr s' \<Rightarrow> runStoreOps hash s' xs)"

text \<open>
  What every store reached from the constructor satisfies: the shard count is the one
  constructed, the store is well formed, capacities are positive, keys are routed.
\<close>

definition good_store :: "(string \<Rightarrow> nat) \<Rightarrow> nat \<Rightarrow> Store \<Rightarrow> bool" where
  "good_store hash n s \<longleftrightarrow>
     length (shards s) = n \<and> store_inv s \<and> positive_capacity s \<and> keys_routed hash s"

subsection \<open>Touches\<close>

text \<open>
  The key an operation touches when it runs on a shard: a put touches its key, a get
  touches its key when the key is found; a get that finds nothing, a delete and a clear
  touch no key. \<open>touch_trace\<close> is the sequence of touches of a run, one entry for each
  operation.
\<close>

fun touch_of :: "Shard \<Rightarrow> shard_op \<Rightarrow> string option" where
  "touch_of sh (Put key val) = Some key"
| "touch_of sh (Get key val) = (if store sh key = None then None else Some key)"
| "touch_of sh (Del key) = None"
| "touch_of sh Clear = None"

fun touch_trace :: "Shard \<Rightarrow> shard_op list \<Rightarrow> string option list" where
  "touch_trace sh [] = []"
| "touch_trace sh (x # xs) =
     touch_of sh x # (case applyOp sh x of Inl e \<Rightarrow> [] | Inr sh' \<Rightarrow> touch_trace sh' xs)"

text \<open>
  The number of operations run since the key was last touched (all of them when it never
  was): the smaller, the more recently touched. A list of keys is in touch order when
  each key was touched more recently than the keys after it.
\<close>

definition since_touch :: "string option list \<Rightarrow> string \<Rightarrow> nat" where
  "since_touch tr k = length (takeWhile (\<lambda>t. t \<noteq> Some k) (rev tr))"

definition touch_order :: "string option list \<Rightarrow> string list \<Rightarrow> bool" where
  "touch_order tr ks \<longleftrightarrow> sorted_wrt (\<lambda>a b. since_touch tr a < since_touch tr b) ks"

text \<open>
  For the comparison of \<open>putMany\<close> with \<open>put_each\<close>: the pairs of a sequence that are
  routed to shard \<open>i\<close> of \<open>n\<close>, in their order, and the shard that \<open>putBatch\<close> returns.
\<close>

definition routedTo :: "(string \<Rightarrow> nat) \<Rightarrow> nat \<Rightarrow> nat \<Rightarrow> (string \<times> string) list \<Rightarrow> (string \<times> string) list" where
  "routedTo hash n i kvs = filter (\<lambda>kv. hash (fst kv) mod n = i) kvs"

definition putBatch_result :: "Shard \<Rightarrow> (string \<times> string) list \<Rightarrow> Shard" where
  "putBatch_result sh kvs = (case putBatch sh kvs of Inl _ \<Rightarrow> sh | Inr sh' \<Rightarrow> sh')"

subsection \<open>Concrete shards\<close>

text \<open>A shard of capacity 1 that is full: it holds the key \<open>A\<close> in the node at address 1.\<close>

definition example_full_shard :: Shard where
  "example_full_shard =
     \<lparr>store = [''A'' \<mapsto> \<lparr>entry_value = ''1'', recencyIt = At 1\<rparr>], recencyList = [(1, ''A'')], capacity = 1\<rparr>"

text \<open>
  A shard of capacity 2 that is full: \<open>B\<close> is the most recently used key, \<open>A\<close> the least.
\<close>

definition example_two_shard :: Shard where
  "example_two_shard =
     \<lparr>store = [''A'' \<mapsto> \<lparr>entry_value = ''1'', recencyIt = At 1\<rparr>,
               ''B'' \<mapsto> \<lparr>entry_value = ''2'', recencyIt = At 2\<rparr>],
      recencyList = [(2, ''B''), (1, ''A'')], capacity = 2\<rparr>"

text \<open>
  The shard of capacity 2 after putting \<open>A\<close>, putting \<open>B\<close> and reading \<open>A\<close>: \<open>A\<close> is the
  most recently used key, \<open>B\<close> the least.
\<close>

definition example_read_shard :: Shard where
  "example_read_shard =
     \<lparr>store = [''A'' \<mapsto> \<lparr>entry_value = ''1'', recencyIt = At 1\<rparr>,
               ''B'' \<mapsto> \<lparr>entry_value = ''2'', recencyIt = At 2\<rparr>],
      recencyList = [(1, ''A''), (2, ''B'')], capacity = 2\<rparr>"

text \<open>
  A store of two shards: the first empty, the second the full shard above. With the
  length of the key as its hash, keys of length 1 are routed to the second shard.
\<close>

definition example_store :: Store where
  "example_store = \<lparr>shards = [new_Shard 2, example_two_shard]\<rparr>"

section \<open>Properties\<close>

text \<open>The definitions that evaluating a shard operation on concrete data unfolds.\<close>

lemmas eval_defs = putInShard_def getFromShard_def delFromShard_def clearShard_def new_Shard_def
  recencyKeys_def contents_def push_front_def new_node_def list_begin_def emplace_def
  list_back_def list_pop_back_def splice_begin_def list_erase_def node_at_def

subsection \<open>The list operations on a well-formed shard\<close>

lemma node_at_distinct:
  "distinct (map fst l) \<Longrightarrow> (a, k) \<in> set l \<Longrightarrow> node_at l (At a) = Some (a, k)"
  by (induction l) (auto simp: node_at_def rev_image_eqI)

lemma filter_fst_absent: "a \<notin> fst ` set l \<Longrightarrow> filter (\<lambda>m. fst m \<noteq> a) l = l"
  by (induction l) auto

lemma filter_snd_absent: "k \<notin> snd ` set l \<Longrightarrow> filter (\<lambda>m. snd m \<noteq> k) l = l"
  by (induction l) auto

lemma filter_fst_snd:
  "distinct (map fst l) \<Longrightarrow> distinct (map snd l) \<Longrightarrow> (a, k) \<in> set l \<Longrightarrow>
   filter (\<lambda>m. fst m \<noteq> a) l = filter (\<lambda>m. snd m \<noteq> k) l"
  by (induction l) (auto simp: rev_image_eqI filter_fst_absent filter_snd_absent)

lemma new_node_fresh: "new_node l \<notin> fst ` set l"
proof
  assume "new_node l \<in> fst ` set l"
  then have "new_node l \<le> Max (set (0 # map fst l))" by (intro Max_ge) auto
  then show False by (simp add: new_node_def)
qed

lemma inv_card: "shard_inv sh \<Longrightarrow> card (dom (store sh)) = length (recencyList sh)"
  unfolding shard_inv_def
  by (metis distinct_card length_map set_map)

lemma inv_entry:
  assumes "shard_inv sh" "store sh key = Some e"
  shows "\<exists>a. recencyIt e = At a \<and> (a, key) \<in> set (recencyList sh)"
proof -
  from assms have "key \<in> snd ` set (recencyList sh)" unfolding shard_inv_def by auto
  then obtain n where n: "n \<in> set (recencyList sh)" "snd n = key" by auto
  with assms have "recencyIt e = At (fst n)" unfolding shard_inv_def by auto
  with n show ?thesis by (cases n) auto
qed


lemma splice_begin_inv:
  assumes "shard_inv sh" "store sh key = Some e"
  shows "\<exists>a. recencyIt e = At a \<and> (a, key) \<in> set (recencyList sh) \<and>
     splice_begin (recencyList sh) (recencyIt e) =
       Inr ((a, key) # filter (\<lambda>m. snd m \<noteq> key) (recencyList sh))"
proof -
  from inv_entry[OF assms] obtain a where a: "recencyIt e = At a" "(a, key) \<in> set (recencyList sh)"
    by blast
  from assms(1) have d: "distinct (map fst (recencyList sh))" "distinct (map snd (recencyList sh))"
    by (simp_all add: shard_inv_def)
  have "node_at (recencyList sh) (At a) = Some (a, key)"
    using d(1) a(2) by (rule node_at_distinct)
  then show ?thesis using a filter_fst_snd[OF d a(2)] by (simp add: splice_begin_def)
qed

lemma list_erase_inv:
  assumes "shard_inv sh" "store sh key = Some e"
  shows "list_erase (recencyList sh) (recencyIt e) =
       Inr (filter (\<lambda>m. snd m \<noteq> key) (recencyList sh))"
proof -
  from inv_entry[OF assms] obtain a where a: "recencyIt e = At a" "(a, key) \<in> set (recencyList sh)"
    by blast
  from assms(1) have d: "distinct (map fst (recencyList sh))" "distinct (map snd (recencyList sh))"
    by (simp_all add: shard_inv_def)
  have "node_at (recencyList sh) (At a) = Some (a, key)"
    using d(1) a(2) by (rule node_at_distinct)
  then show ?thesis using a filter_fst_snd[OF d a(2)] by (simp add: list_erase_def)
qed


lemma front_inv:
  assumes inv: "shard_inv sh" and e: "store sh key = Some e" and n: "(a, key) \<in> set (recencyList sh)"
    and it: "recencyIt e' = At a"
  shows "shard_inv (sh\<lparr>store := (store sh)(key \<mapsto> e'),
                       recencyList := (a, key) # filter (\<lambda>m. snd m \<noteq> key) (recencyList sh)\<rparr>)"
proof -
  let ?l = "recencyList sh"
  from inv have d: "distinct (map fst ?l)" "distinct (map snd ?l)"
    and dm: "dom (store sh) = snd ` set ?l"
    and its: "\<forall>n \<in> set ?l. map_option recencyIt (store sh (snd n)) = Some (At (fst n))"
    by (simp_all add: shard_inv_def)
  have f: "filter (\<lambda>m. snd m \<noteq> key) ?l = filter (\<lambda>m. fst m \<noteq> a) ?l"
    using filter_fst_snd[OF d n] by simp
  have 1: "distinct (map fst ((a, key) # filter (\<lambda>m. snd m \<noteq> key) ?l))"
    unfolding f using d(1) by (auto simp: distinct_map_filter)
  have 2: "distinct (map snd ((a, key) # filter (\<lambda>m. snd m \<noteq> key) ?l))"
    using d(2) by (auto simp: distinct_map_filter)
  have 3: "dom ((store sh)(key \<mapsto> e')) = snd ` set ((a, key) # filter (\<lambda>m. snd m \<noteq> key) ?l)"
    using dm n e by (auto simp: rev_image_eqI)
  have 4: "\<forall>n \<in> set ((a, key) # filter (\<lambda>m. snd m \<noteq> key) ?l).
             map_option recencyIt (((store sh)(key \<mapsto> e')) (snd n)) = Some (At (fst n))"
    using its it by auto
  show ?thesis unfolding shard_inv_def using 1 2 3 4 by simp
qed


lemma erase_inv:
  assumes inv: "shard_inv sh"
  shows "shard_inv (sh\<lparr>store := (store sh)(key := None),
                       recencyList := filter (\<lambda>m. snd m \<noteq> key) (recencyList sh)\<rparr>)"
proof -
  let ?l = "recencyList sh"
  from inv have d: "distinct (map fst ?l)" "distinct (map snd ?l)"
    and dm: "dom (store sh) = snd ` set ?l"
    and its: "\<forall>n \<in> set ?l. map_option recencyIt (store sh (snd n)) = Some (At (fst n))"
    by (simp_all add: shard_inv_def)
  have 3: "dom ((store sh)(key := None)) = snd ` set (filter (\<lambda>m. snd m \<noteq> key) ?l)"
    using dm by auto
  have 4: "\<forall>n \<in> set (filter (\<lambda>m. snd m \<noteq> key) ?l).
             map_option recencyIt (((store sh)(key := None)) (snd n)) = Some (At (fst n))"
    using its by auto
  show ?thesis unfolding shard_inv_def using d 3 4 by (simp add: distinct_map_filter)
qed

lemma evict_inv:
  assumes inv: "shard_inv sh" and ne: "recencyList sh \<noteq> []"
  shows "shard_inv (sh\<lparr>store := (store sh)(snd (last (recencyList sh)) := None),
                       recencyList := butlast (recencyList sh)\<rparr>)"
proof -
  let ?l = "recencyList sh"
  let ?k = "snd (last ?l)"
  from inv have d: "distinct (map snd ?l)" by (simp add: shard_inv_def)
  from ne have l: "?l = butlast ?l @ [last ?l]" by simp
  have "?k \<notin> snd ` set (butlast ?l)"
    using d by (subst (asm) l) simp
  then have "filter (\<lambda>m. snd m \<noteq> ?k) (butlast ?l) = butlast ?l"
    by (rule filter_snd_absent)
  then have "filter (\<lambda>m. snd m \<noteq> ?k) ?l = butlast ?l"
    by (subst l) simp
  with erase_inv[OF inv, of ?k] show ?thesis by simp
qed

lemma push_inv:
  assumes inv: "shard_inv sh" and e: "store sh key = None"
    and it: "recencyIt e' = At (new_node (recencyList sh))"
  shows "shard_inv (sh\<lparr>store := (store sh)(key \<mapsto> e'),
                       recencyList := (new_node (recencyList sh), key) # recencyList sh\<rparr>)"
proof -
  let ?l = "recencyList sh"
  from inv have d: "distinct (map fst ?l)" "distinct (map snd ?l)"
    and dm: "dom (store sh) = snd ` set ?l"
    and its: "\<forall>n \<in> set ?l. map_option recencyIt (store sh (snd n)) = Some (At (fst n))"
    by (simp_all add: shard_inv_def)
  from e dm have k: "key \<notin> snd ` set ?l" by auto
  have 4: "\<forall>n \<in> set ((new_node ?l, key) # ?l).
             map_option recencyIt (((store sh)(key \<mapsto> e')) (snd n)) = Some (At (fst n))"
    using its it k by auto
  show ?thesis unfolding shard_inv_def using d dm k 4 new_node_fresh[of ?l] by simp
qed

lemma putInShard_existing:
  assumes inv: "shard_inv sh" and e: "store sh key = Some e"
  shows "\<exists>a. (a, key) \<in> set (recencyList sh) \<and>
           putInShard sh key v =
             Inr (sh\<lparr>store := (store sh)(key \<mapsto> \<lparr>entry_value = v, recencyIt = At a\<rparr>),
                     recencyList := (a, key) # filter (\<lambda>m. snd m \<noteq> key) (recencyList sh)\<rparr>, True)"
  using splice_begin_inv[OF inv e] e
  by (auto simp: putInShard_def list_begin_def)

lemma getFromShard_present:
  assumes inv: "shard_inv sh" and e: "store sh key = Some e"
  shows "\<exists>a. (a, key) \<in> set (recencyList sh) \<and>
           getFromShard sh key v =
             Inr (sh\<lparr>store := (store sh)(key \<mapsto> e\<lparr>recencyIt := At a\<rparr>),
                     recencyList := (a, key) # filter (\<lambda>m. snd m \<noteq> key) (recencyList sh)\<rparr>,
                  entry_value e, True)"
  using splice_begin_inv[OF inv e] e
  by (auto simp: getFromShard_def list_begin_def)

lemma delFromShard_present:
  assumes inv: "shard_inv sh" and e: "store sh key = Some e"
  shows "delFromShard sh key =
             Inr (sh\<lparr>store := (store sh)(key := None),
                     recencyList := filter (\<lambda>m. snd m \<noteq> key) (recencyList sh)\<rparr>, True)"
  using list_erase_inv[OF inv e] e
  by (simp add: delFromShard_def)

lemma putInShard_new_room:
  assumes e: "store sh key = None" and c: "card (dom (store sh)) < capacity sh"
  shows "putInShard sh key v =
           Inr (sh\<lparr>store := (store sh)(key \<mapsto> \<lparr>entry_value = v, recencyIt = At (new_node (recencyList sh))\<rparr>),
                   recencyList := (new_node (recencyList sh), key) # recencyList sh\<rparr>, True)"
  using e c by (simp add: putInShard_def list_begin_def push_front_def emplace_def)

lemma putInShard_new_full:
  assumes e: "store sh key = None" and c: "capacity sh \<le> card (dom (store sh))"
    and ne: "recencyList sh \<noteq> []"
  shows "putInShard sh key v =
           Inr (sh\<lparr>store := ((store sh)(snd (last (recencyList sh)) := None))
                       (key \<mapsto> \<lparr>entry_value = v, recencyIt = At (new_node (butlast (recencyList sh)))\<rparr>),
                   recencyList := (new_node (butlast (recencyList sh)), key) # butlast (recencyList sh)\<rparr>, True)"
  using e c ne
  by (simp add: putInShard_def list_begin_def push_front_def emplace_def list_back_def list_pop_back_def)

subsection \<open>Puts on a well-formed shard\<close>

lemma putInShard_inv:
  assumes inv: "shard_inv sh" and r: "putInShard sh key v = Inr (sh', b)"
  shows "shard_inv sh' \<and> capacity sh' = capacity sh \<and> b"
proof (cases "store sh key")
  case (Some e)
  from putInShard_existing[OF inv Some, of v] obtain a where
    a: "(a, key) \<in> set (recencyList sh)"
    and p: "putInShard sh key v =
             Inr (sh\<lparr>store := (store sh)(key \<mapsto> \<lparr>entry_value = v, recencyIt = At a\<rparr>),
                     recencyList := (a, key) # filter (\<lambda>m. snd m \<noteq> key) (recencyList sh)\<rparr>, True)"
    by blast
  from front_inv[OF inv Some a, of "\<lparr>entry_value = v, recencyIt = At a\<rparr>"] p r
  show ?thesis by auto
next
  case None
  show ?thesis
  proof (cases "capacity sh \<le> card (dom (store sh))")
    case False
    then have c: "card (dom (store sh)) < capacity sh" by simp
    from push_inv[OF inv None, of "\<lparr>entry_value = v, recencyIt = At (new_node (recencyList sh))\<rparr>"]
      putInShard_new_room[OF None c, of v] r
    show ?thesis by auto
  next
    case True
    show ?thesis
    proof (cases "recencyList sh = []")
      case True
      with None \<open>capacity sh \<le> card (dom (store sh))\<close> r show ?thesis
        by (simp add: putInShard_def list_back_def)
    next
      case False
      let ?sh1 = "sh\<lparr>store := (store sh)(snd (last (recencyList sh)) := None),
                       recencyList := butlast (recencyList sh)\<rparr>"
      have i1: "shard_inv ?sh1" using inv False by (rule evict_inv)
      have n1: "store ?sh1 key = None" using None by simp
      from push_inv[OF i1 n1, of "\<lparr>entry_value = v, recencyIt = At (new_node (butlast (recencyList sh)))\<rparr>"]
        putInShard_new_full[OF None True False, of v] r
      show ?thesis by auto
    qed
  qed
qed

lemma putInShard_returns:
  assumes inv: "shard_inv sh" and c: "0 < capacity sh"
  shows "\<exists>sh'. putInShard sh key v = Inr (sh', True)"
proof (cases "store sh key")
  case (Some e)
  from putInShard_existing[OF inv Some, of v] show ?thesis by blast
next
  case None
  show ?thesis
  proof (cases "capacity sh \<le> card (dom (store sh))")
    case False
    then have "card (dom (store sh)) < capacity sh" by simp
    from putInShard_new_room[OF None this, of v] show ?thesis by blast
  next
    case True
    with c inv_card[OF inv] have "recencyList sh \<noteq> []" by auto
    from putInShard_new_full[OF None True this, of v] show ?thesis by blast
  qed
qed

lemma putInShard_size:
  assumes inv: "shard_inv sh" and c: "0 < capacity sh"
    and le: "card (dom (store sh)) \<le> capacity sh"
    and r: "putInShard sh key v = Inr (sh', b)"
  shows "card (dom (store sh')) \<le> capacity sh"
proof -
  from putInShard_inv[OF inv r] have i': "shard_inv sh'" by simp
  have "length (recencyList sh') \<le> capacity sh"
  proof (cases "store sh key")
    case (Some e)
    from putInShard_existing[OF inv Some, of v] r obtain a where
      a: "(a, key) \<in> set (recencyList sh)"
      and l: "recencyList sh' = (a, key) # filter (\<lambda>m. snd m \<noteq> key) (recencyList sh)"
      by auto
    from a have "length (filter (\<lambda>m. snd m \<noteq> key) (recencyList sh)) < length (recencyList sh)"
      by (intro length_filter_less[of "(a, key)"]) auto
    with l le inv_card[OF inv] show ?thesis by simp
  next
    case None
    show ?thesis
    proof (cases "capacity sh \<le> card (dom (store sh))")
      case False
      then have lt: "card (dom (store sh)) < capacity sh" by simp
      from putInShard_new_room[OF None lt, of v] r lt inv_card[OF inv] show ?thesis by auto
    next
      case True
      with c inv_card[OF inv] have ne: "recencyList sh \<noteq> []" by auto
      from putInShard_new_full[OF None True ne, of v] r le inv_card[OF inv] ne show ?thesis
        by (auto simp: Suc_le_eq)
    qed
  qed
  with inv_card[OF i'] show ?thesis by simp
qed

lemma new_Shard_inv: "shard_inv (new_Shard C)"
  by (simp add: shard_inv_def new_Shard_def)

lemma putBatch_bounded:
  assumes "shard_inv sh" "0 < capacity sh" "card (dom (store sh)) \<le> capacity sh"
  shows "\<exists>sh'. putBatch sh kvs = Inr sh' \<and> shard_inv sh' \<and> capacity sh' = capacity sh \<and>
            card (dom (store sh')) \<le> capacity sh"
  using assms
proof (induction kvs arbitrary: sh)
  case Nil
  then show ?case by simp
next
  case (Cons kv kvs)
  from putInShard_returns[OF Cons.prems(1,2)] obtain sh1 where
    p: "putInShard sh (fst kv) (snd kv) = Inr (sh1, True)" by blast
  from putInShard_inv[OF Cons.prems(1) p] have i1: "shard_inv sh1" and c1: "capacity sh1 = capacity sh"
    by simp_all
  from putInShard_size[OF Cons.prems p] c1 have b1: "card (dom (store sh1)) \<le> capacity sh1" by simp
  from Cons.IH[OF i1 _ b1] Cons.prems(2) c1 p show ?case by simp
qed


subsection \<open>Reads, deletes and runs of operations on a well-formed shard\<close>

lemma getFromShard_inv:
  assumes inv: "shard_inv sh" and r: "getFromShard sh key v = Inr (sh', v', b)"
  shows "shard_inv sh' \<and> capacity sh' = capacity sh"
proof (cases "store sh key")
  case None
  with r inv show ?thesis by (simp add: getFromShard_def)
next
  case (Some e)
  from getFromShard_present[OF inv Some, of v] r obtain a where
    a: "(a, key) \<in> set (recencyList sh)"
    and s: "sh' = sh\<lparr>store := (store sh)(key \<mapsto> e\<lparr>recencyIt := At a\<rparr>),
                     recencyList := (a, key) # filter (\<lambda>m. snd m \<noteq> key) (recencyList sh)\<rparr>"
    by auto
  from front_inv[OF inv Some a, of "e\<lparr>recencyIt := At a\<rparr>"] s show ?thesis by simp
qed

lemma getFromShard_returns:
  assumes inv: "shard_inv sh"
  shows "\<exists>sh' v' b. getFromShard sh key v = Inr (sh', v', b)"
proof (cases "store sh key")
  case None
  then show ?thesis by (auto simp: getFromShard_def)
next
  case (Some e)
  from getFromShard_present[OF inv Some, of v] show ?thesis by blast
qed

lemma delFromShard_inv:
  assumes inv: "shard_inv sh" and r: "delFromShard sh key = Inr (sh', b)"
  shows "shard_inv sh' \<and> capacity sh' = capacity sh"
proof (cases "store sh key")
  case None
  with r inv show ?thesis by (simp add: delFromShard_def)
next
  case (Some e)
  from delFromShard_present[OF inv Some] r erase_inv[OF inv, of key] show ?thesis by auto
qed

lemma delFromShard_returns:
  assumes inv: "shard_inv sh"
  shows "\<exists>sh' b. delFromShard sh key = Inr (sh', b)"
proof (cases "store sh key")
  case None
  then show ?thesis by (auto simp: delFromShard_def)
next
  case (Some e)
  from delFromShard_present[OF inv Some] show ?thesis by blast
qed

lemma clearShard_inv: "shard_inv (clearShard sh) \<and> capacity (clearShard sh) = capacity sh"
  by (simp add: shard_inv_def clearShard_def)

lemma applyOp_inv:
  assumes inv: "shard_inv sh" and r: "applyOp sh x = Inr sh'"
  shows "shard_inv sh' \<and> capacity sh' = capacity sh"
proof (cases x)
  case (Put key val)
  with r obtain b where "putInShard sh key val = Inr (sh', b)"
    by (auto split: sum.splits)
  from putInShard_inv[OF inv this] show ?thesis by simp
next
  case (Get key val)
  with r obtain v' b where "getFromShard sh key val = Inr (sh', v', b)"
    by (auto split: sum.splits)
  from getFromShard_inv[OF inv this] show ?thesis .
next
  case (Del key)
  with r obtain b where "delFromShard sh key = Inr (sh', b)"
    by (auto split: sum.splits)
  from delFromShard_inv[OF inv this] show ?thesis .
next
  case Clear
  with r clearShard_inv[of sh] show ?thesis by auto
qed

lemma applyOp_returns:
  assumes inv: "shard_inv sh" and c: "0 < capacity sh"
  shows "\<exists>sh'. applyOp sh x = Inr sh'"
proof (cases x)
  case (Put key val)
  with putInShard_returns[OF inv c, of key val] show ?thesis by auto
next
  case (Get key val)
  with getFromShard_returns[OF inv, of key val] show ?thesis by auto
next
  case (Del key)
  with delFromShard_returns[OF inv, of key] show ?thesis by auto
next
  case Clear
  then show ?thesis by simp
qed

lemma runOps_inv:
  "shard_inv sh \<Longrightarrow> runOps sh xs = Inr sh' \<Longrightarrow> shard_inv sh' \<and> capacity sh' = capacity sh"
proof (induction xs arbitrary: sh)
  case Nil
  then show ?case by simp
next
  case (Cons x xs)
  from Cons.prems(2) obtain sh1 where a: "applyOp sh x = Inr sh1" and r: "runOps sh1 xs = Inr sh'"
    by (auto split: sum.splits)
  from applyOp_inv[OF Cons.prems(1) a] Cons.IH[OF _ r] show ?case by simp
qed

lemma runOps_returns:
  "shard_inv sh \<Longrightarrow> 0 < capacity sh \<Longrightarrow> \<exists>sh'. runOps sh xs = Inr sh'"
proof (induction xs arbitrary: sh)
  case Nil
  then show ?case by simp
next
  case (Cons x xs)
  from applyOp_returns[OF Cons.prems] obtain sh1 where a: "applyOp sh x = Inr sh1" by blast
  from applyOp_inv[OF Cons.prems(1) a] Cons.prems(2) Cons.IH[of sh1] a show ?case by simp
qed

lemma inv_dom: "shard_inv sh \<Longrightarrow> dom (store sh) = set (recencyKeys sh)"
  by (simp add: shard_inv_def recencyKeys_def)

subsection \<open>The operations in terms of recency keys and contents\<close>

lemma recencyKeys_filter:
  "map snd (filter (\<lambda>m. snd m \<noteq> key) l) = filter (\<lambda>k. k \<noteq> key) (map snd l)"
  by (induction l) auto

lemma put_existing_abs:
  assumes inv: "shard_inv sh" and e: "store sh key = Some e"
  shows "\<exists>sh'. putInShard sh key v = Inr (sh', True) \<and> shard_inv sh' \<and>
           capacity sh' = capacity sh \<and>
           recencyKeys sh' = key # filter (\<lambda>k. k \<noteq> key) (recencyKeys sh) \<and>
           contents sh' = (contents sh)(key \<mapsto> v) \<and>
           dom (store sh') = dom (store sh)"
proof -
  from putInShard_existing[OF inv e, of v] obtain a where
    a: "(a, key) \<in> set (recencyList sh)"
    and p: "putInShard sh key v =
             Inr (sh\<lparr>store := (store sh)(key \<mapsto> \<lparr>entry_value = v, recencyIt = At a\<rparr>),
                     recencyList := (a, key) # filter (\<lambda>m. snd m \<noteq> key) (recencyList sh)\<rparr>, True)"
    by blast
  let ?sh' = "sh\<lparr>store := (store sh)(key \<mapsto> \<lparr>entry_value = v, recencyIt = At a\<rparr>),
                     recencyList := (a, key) # filter (\<lambda>m. snd m \<noteq> key) (recencyList sh)\<rparr>"
  from putInShard_inv[OF inv p] have i: "shard_inv ?sh'" by simp
  have k: "recencyKeys ?sh' = key # filter (\<lambda>k. k \<noteq> key) (recencyKeys sh)"
    by (simp add: recencyKeys_def recencyKeys_filter)
  have c: "contents ?sh' = (contents sh)(key \<mapsto> v)"
    by (auto simp: contents_def)
  have d: "dom (store ?sh') = dom (store sh)" using e by auto
  from p i k c d show ?thesis by simp
qed

lemma put_new_room_abs:
  assumes inv: "shard_inv sh" and e: "store sh key = None"
    and c: "card (dom (store sh)) < capacity sh"
  shows "\<exists>sh'. putInShard sh key v = Inr (sh', True) \<and> shard_inv sh' \<and>
           capacity sh' = capacity sh \<and>
           recencyKeys sh' = key # recencyKeys sh \<and>
           contents sh' = (contents sh)(key \<mapsto> v)"
proof -
  note p = putInShard_new_room[OF e c, of v]
  from putInShard_inv[OF inv p] p show ?thesis
    by (auto simp: recencyKeys_def contents_def)
qed

lemma put_new_full_abs:
  assumes inv: "shard_inv sh" and e: "store sh key = None"
    and c: "capacity sh \<le> card (dom (store sh))" and pos: "0 < capacity sh"
  shows "\<exists>sh'. putInShard sh key v = Inr (sh', True) \<and> shard_inv sh' \<and>
           capacity sh' = capacity sh \<and>
           recencyKeys sh' = key # butlast (recencyKeys sh) \<and>
           contents sh' = ((contents sh)(last (recencyKeys sh) := None))(key \<mapsto> v)"
proof -
  from c pos inv_card[OF inv] have ne: "recencyList sh \<noteq> []" by auto
  note p = putInShard_new_full[OF e c ne, of v]
  from putInShard_inv[OF inv p] p ne show ?thesis
    by (auto simp: recencyKeys_def contents_def map_butlast last_map)
qed

lemma putBatch_append:
  "putBatch sh (xs @ ys) = (case putBatch sh xs of Inl e \<Rightarrow> Inl e | Inr sh' \<Rightarrow> putBatch sh' ys)"
  by (induction xs arbitrary: sh) (auto split: sum.splits)

lemma map_of_snoc:
  "k \<notin> fst ` set xs \<Longrightarrow> map_of (xs @ [(k, v)]) = (map_of xs)(k \<mapsto> v)"
  by (induction xs) (auto simp: fun_upd_twist)

lemma contents_new_Shard: "contents (new_Shard C) = Map.empty"
  by (simp add: contents_def new_Shard_def)

lemma putBatch_fill:
  "distinct (map fst kvs) \<Longrightarrow> length kvs \<le> C \<Longrightarrow>
   \<exists>sh. putBatch (new_Shard C) kvs = Inr sh \<and> shard_inv sh \<and> capacity sh = C \<and>
        recencyKeys sh = rev (map fst kvs) \<and> contents sh = map_of kvs"
proof (induction kvs rule: rev_induct)
  case Nil
  show ?case using new_Shard_inv[of C]
    by (simp add: contents_new_Shard) (simp add: new_Shard_def recencyKeys_def)
next
  case (snoc kv kvs)
  from snoc.prems have d: "distinct (map fst kvs)" and l: "length kvs \<le> C"
    and fresh: "fst kv \<notin> fst ` set kvs" and lt: "length kvs < C"
    by auto
  from snoc.IH[OF d l] obtain sh where
    b: "putBatch (new_Shard C) kvs = Inr sh" and i: "shard_inv sh" and c: "capacity sh = C"
    and k: "recencyKeys sh = rev (map fst kvs)" and m: "contents sh = map_of kvs"
    by blast
  from inv_dom[OF i] k fresh have n: "store sh (fst kv) = None" by auto
  from inv_card[OF i] k lt c have r: "card (dom (store sh)) < capacity sh"
    by (simp add: recencyKeys_def) (metis length_map length_rev)
  from put_new_room_abs[OF i n r, of "snd kv"] obtain sh' where
    p: "putInShard sh (fst kv) (snd kv) = Inr (sh', True)" and i': "shard_inv sh'"
    and c': "capacity sh' = capacity sh"
    and k': "recencyKeys sh' = fst kv # recencyKeys sh"
    and m': "contents sh' = (contents sh)(fst kv \<mapsto> snd kv)"
    by blast
  have "map_of (kvs @ [kv]) = (map_of kvs)(fst kv \<mapsto> snd kv)"
    using map_of_snoc[OF fresh, of "snd kv"] by simp
  with m' m have m'': "contents sh' = map_of (kvs @ [kv])" by simp
  have "putBatch (new_Shard C) (kvs @ [kv]) = Inr sh'"
    using b p by (simp add: putBatch_append)
  moreover have "recencyKeys sh' = rev (map fst (kvs @ [kv]))" using k' k by simp
  ultimately show ?case using i' c' c m'' by blast
qed


lemma dom_contents: "dom (contents sh) = dom (store sh)"
  by (auto simp: contents_def)

lemma putBatch_overflow:
  assumes pos: "0 < C" and d: "distinct (map fst kvs)" and len: "length kvs = Suc C"
  shows "\<exists>sh. putBatch (new_Shard C) kvs = Inr sh \<and> shard_inv sh \<and>
           recencyKeys sh = rev (map fst (tl kvs)) \<and>
           contents sh = (map_of kvs)(fst (hd kvs) := None)"
proof -
  from len have ne: "kvs \<noteq> []" by auto
  define xs where "xs = butlast kvs"
  define kv where "kv = last kvs"
  from ne have kvs: "kvs = xs @ [kv]" by (simp add: xs_def kv_def)
  from len kvs have lx: "length xs = C" by simp
  with pos have xne: "xs \<noteq> []" by auto
  from d kvs have dx: "distinct (map fst xs)" and fresh: "fst kv \<notin> fst ` set xs" by auto
  from putBatch_fill[OF dx, of C] lx obtain sh where
    b: "putBatch (new_Shard C) xs = Inr sh" and i: "shard_inv sh" and c: "capacity sh = C"
    and k: "recencyKeys sh = rev (map fst xs)" and m: "contents sh = map_of xs"
    by auto
  from inv_dom[OF i] k fresh have n: "store sh (fst kv) = None" by auto
  have "length (recencyList sh) = length (recencyKeys sh)" by (simp add: recencyKeys_def)
  with inv_card[OF i] k lx c have full: "capacity sh \<le> card (dom (store sh))" by simp
  from c pos have pos': "0 < capacity sh" by simp
  from put_new_full_abs[OF i n full pos', of "snd kv"] obtain sh' where
    p: "putInShard sh (fst kv) (snd kv) = Inr (sh', True)" and i': "shard_inv sh'"
    and k': "recencyKeys sh' = fst kv # butlast (recencyKeys sh)"
    and m': "contents sh' = ((contents sh)(last (recencyKeys sh) := None))(fst kv \<mapsto> snd kv)"
    by blast
  have h: "fst (hd kvs) = fst (hd xs)" using kvs xne by simp
  have lk: "last (recencyKeys sh) = fst (hd xs)" using k xne by (simp add: last_rev hd_map)
  have hx: "fst (hd xs) \<in> fst ` set xs" using xne by simp
  with fresh have neq: "fst (hd xs) \<noteq> fst kv" by metis
  have 1: "putBatch (new_Shard C) kvs = Inr sh'" using b p kvs by (simp add: putBatch_append)
  have 2: "recencyKeys sh' = rev (map fst (tl kvs))" using k' k kvs xne by (simp add: map_tl)
  have "map_of kvs = (map_of xs)(fst kv \<mapsto> snd kv)"
    using map_of_snoc[OF fresh, of "snd kv"] kvs by simp
  then have 3: "contents sh' = (map_of kvs)(fst (hd kvs) := None)"
    using m' m lk h neq by (simp add: fun_upd_twist)
  from 1 i' 2 3 show ?thesis by blast
qed

lemma get_present_abs:
  assumes inv: "shard_inv sh" and e: "store sh key = Some e"
  shows "\<exists>sh'. getFromShard sh key v = Inr (sh', entry_value e, True) \<and> shard_inv sh' \<and>
           capacity sh' = capacity sh \<and>
           recencyKeys sh' = key # filter (\<lambda>k. k \<noteq> key) (recencyKeys sh) \<and>
           contents sh' = contents sh"
proof -
  from getFromShard_present[OF inv e, of v] obtain a where
    p: "getFromShard sh key v =
             Inr (sh\<lparr>store := (store sh)(key \<mapsto> e\<lparr>recencyIt := At a\<rparr>),
                     recencyList := (a, key) # filter (\<lambda>m. snd m \<noteq> key) (recencyList sh)\<rparr>,
                  entry_value e, True)"
    by blast
  let ?sh' = "sh\<lparr>store := (store sh)(key \<mapsto> e\<lparr>recencyIt := At a\<rparr>),
                     recencyList := (a, key) # filter (\<lambda>m. snd m \<noteq> key) (recencyList sh)\<rparr>"
  from getFromShard_inv[OF inv p] have i: "shard_inv ?sh'" by simp
  have k: "recencyKeys ?sh' = key # filter (\<lambda>k. k \<noteq> key) (recencyKeys sh)"
    by (simp add: recencyKeys_def recencyKeys_filter)
  have c: "contents ?sh' = contents sh"
    using e by (auto simp: contents_def)
  from p i k c show ?thesis by simp
qed

lemma example_two_shard_inv: "shard_inv example_two_shard"
  by (auto simp: shard_inv_def example_two_shard_def)

subsection \<open>Well-formed stores\<close>

lemma del_present_abs:
  assumes inv: "shard_inv sh" and e: "store sh key = Some e"
  shows "\<exists>sh'. delFromShard sh key = Inr (sh', True) \<and> shard_inv sh' \<and>
           capacity sh' = capacity sh \<and>
           recencyKeys sh' = filter (\<lambda>k. k \<noteq> key) (recencyKeys sh) \<and>
           contents sh' = (contents sh)(key := None) \<and>
           store sh' key = None"
proof -
  note p = delFromShard_present[OF inv e]
  from delFromShard_inv[OF inv p] p show ?thesis
    by (auto simp: recencyKeys_def recencyKeys_filter contents_def)
qed

lemma shardIndex_returns:
  "shards s \<noteq> [] \<Longrightarrow>
   shardIndex hash s key = Inr (hash key mod length (shards s)) \<and>
   hash key mod length (shards s) < length (shards s)"
  by (simp add: shardIndex_def)

lemma store_inv_nth: "store_inv s \<Longrightarrow> i < length (shards s) \<Longrightarrow> shard_inv (shards s ! i)"
  by (simp add: store_inv_def)

lemma example_store_inv: "store_inv example_store"
  using example_two_shard_inv new_Shard_inv[of 2] by (simp add: store_inv_def example_store_def)

lemma example_store_routed: "keys_routed (\<lambda>k. length k) example_store"
  by (auto simp: keys_routed_def example_store_def example_two_shard_def new_Shard_def less_Suc_eq)

subsection \<open>Batches: each shard sees the pairs routed to it, in order\<close>

lemma putBatch_returns:
  "shard_inv sh \<Longrightarrow> 0 < capacity sh \<Longrightarrow>
   \<exists>sh'. putBatch sh kvs = Inr sh' \<and> shard_inv sh' \<and> capacity sh' = capacity sh"
proof (induction kvs arbitrary: sh)
  case Nil
  then show ?case by simp
next
  case (Cons kv kvs)
  from putInShard_returns[OF Cons.prems] obtain sh1 where
    p: "putInShard sh (fst kv) (snd kv) = Inr (sh1, True)" by blast
  from putInShard_inv[OF Cons.prems(1) p] have i1: "shard_inv sh1" and c1: "capacity sh1 = capacity sh"
    by simp_all
  from Cons.IH[OF i1] Cons.prems(2) c1 p show ?case by simp
qed

lemma putBatch_result_ok:
  assumes "shard_inv sh" "0 < capacity sh"
  shows "putBatch sh kvs = Inr (putBatch_result sh kvs)"
    and "shard_inv (putBatch_result sh kvs)"
    and "capacity (putBatch_result sh kvs) = capacity sh"
  using putBatch_returns[OF assms, of kvs] by (auto simp: putBatch_result_def)

lemma putBatch_result_Nil: "putBatch_result sh [] = sh"
  by (simp add: putBatch_result_def)

lemma putBatch_result_Cons:
  assumes inv: "shard_inv sh" and c: "0 < capacity sh"
    and p: "putInShard sh (fst kv) (snd kv) = Inr (sh1, b)"
  shows "putBatch_result sh (kv # kvs) = putBatch_result sh1 kvs"
proof -
  from putInShard_inv[OF inv p] c have "shard_inv sh1" "0 < capacity sh1" by simp_all
  from putBatch_result_ok(1)[OF this, of kvs] p show ?thesis
    by (cases "putBatch sh1 kvs") (simp_all add: putBatch_result_def)
qed

lemma store_inv_update:
  assumes "store_inv s" "positive_capacity s" "i < length (shards s)"
    and "shard_inv sh" "0 < capacity sh"
  shows "store_inv (s\<lparr>shards := (shards s)[i := sh]\<rparr>) \<and>
         positive_capacity (s\<lparr>shards := (shards s)[i := sh]\<rparr>)"
  using assms unfolding store_inv_def positive_capacity_def
  by (auto dest!: set_update_subset_insert[THEN subsetD])

lemma put_returns:
  assumes si: "store_inv s" and pc: "positive_capacity s"
  shows "\<exists>sh1. putInShard (shards s ! (hash key mod length (shards s))) key v = Inr (sh1, True) \<and>
           shard_inv sh1 \<and> 0 < capacity sh1 \<and>
           put hash s key v = Inr (s\<lparr>shards := (shards s)[hash key mod length (shards s) := sh1]\<rparr>, True)"
proof -
  let ?i = "hash key mod length (shards s)"
  from si have ne: "shards s \<noteq> []" by (simp add: store_inv_def)
  from shardIndex_returns[OF ne, of hash key] have ix: "shardIndex hash s key = Inr ?i"
    and lt: "?i < length (shards s)" by simp_all
  from store_inv_nth[OF si lt] have inv: "shard_inv (shards s ! ?i)" .
  from pc lt have c: "0 < capacity (shards s ! ?i)" by (simp add: positive_capacity_def)
  from putInShard_returns[OF inv c, of key v] obtain sh1 where
    p: "putInShard (shards s ! ?i) key v = Inr (sh1, True)" by blast
  from putInShard_inv[OF inv p] c have "shard_inv sh1" "0 < capacity sh1" by simp_all
  moreover have "put hash s key v = Inr (s\<lparr>shards := (shards s)[?i := sh1]\<rparr>, True)"
    by (simp add: put_def ix p)
  ultimately show ?thesis using p by blast
qed

lemma put_each_routed:
  assumes "store_inv s" "positive_capacity s"
  shows "put_each hash s kvs =
           Inr (s\<lparr>shards := map (\<lambda>i. putBatch_result (shards s ! i) (routedTo hash (length (shards s)) i kvs))
                               [0..<length (shards s)]\<rparr>)"
  using assms
proof (induction kvs arbitrary: s)
  case Nil
  then show ?case by (simp add: routedTo_def putBatch_result_Nil map_nth)
next
  case (Cons kv kvs)
  let ?n = "length (shards s)"
  let ?i = "hash (fst kv) mod ?n"
  from Cons.prems(1) have ne: "shards s \<noteq> []" by (simp add: store_inv_def)
  then have lt: "?i < ?n" by simp
  from put_returns[OF Cons.prems, of hash "fst kv" "snd kv"] obtain sh1 where
    p: "putInShard (shards s ! ?i) (fst kv) (snd kv) = Inr (sh1, True)"
    and i1: "shard_inv sh1" and c1: "0 < capacity sh1"
    and r: "put hash s (fst kv) (snd kv) = Inr (s\<lparr>shards := (shards s)[?i := sh1]\<rparr>, True)"
    by blast
  let ?s1 = "s\<lparr>shards := (shards s)[?i := sh1]\<rparr>"
  from store_inv_update[OF Cons.prems lt i1 c1] have g1: "store_inv ?s1" "positive_capacity ?s1"
    by simp_all
  have inv: "shard_inv (shards s ! ?i)" by (rule store_inv_nth[OF Cons.prems(1) lt])
  have c: "0 < capacity (shards s ! ?i)" using Cons.prems(2) lt by (simp add: positive_capacity_def)
  have eq: "putBatch_result (shards ?s1 ! i) (routedTo hash ?n i kvs) =
            putBatch_result (shards s ! i) (routedTo hash ?n i (kv # kvs))" if "i < ?n" for i
  proof (cases "i = ?i")
    case True
    then show ?thesis using lt putBatch_result_Cons[OF inv c p]
      by (simp add: routedTo_def)
  next
    case False
    then show ?thesis by (simp add: routedTo_def)
  qed
  have "put_each hash s (kv # kvs) = put_each hash ?s1 kvs" by (simp add: r)
  also have "\<dots> = Inr (?s1\<lparr>shards := map (\<lambda>i. putBatch_result (shards ?s1 ! i) (routedTo hash (length (shards ?s1)) i kvs))
                               [0..<length (shards ?s1)]\<rparr>)"
    by (rule Cons.IH[OF g1])
  also have "\<dots> = Inr (s\<lparr>shards := map (\<lambda>i. putBatch_result (shards s ! i) (routedTo hash ?n i (kv # kvs)))
                               [0..<?n]\<rparr>)"
    using eq by simp
  finally show ?case .
qed

lemma assignBatches_routed:
  assumes "shards s \<noteq> []" "length b = length (shards s)"
  shows "assignBatches hash s kvs b =
           Inr (map (\<lambda>i. b ! i @ routedTo hash (length (shards s)) i kvs) [0..<length (shards s)])"
  using assms
proof (induction kvs arbitrary: b)
  case Nil
  have "map (\<lambda>i. b ! i) [0..<length b] = b" by (rule map_nth)
  with Nil show ?case by (simp add: routedTo_def)
next
  case (Cons kv kvs)
  let ?n = "length (shards s)"
  let ?i = "hash (fst kv) mod ?n"
  from Cons.prems have lt: "?i < ?n" by simp
  from shardIndex_returns[OF Cons.prems(1), of hash "fst kv"]
  have ix: "shardIndex hash s (fst kv) = Inr ?i" by simp
  let ?b' = "b[?i := b ! ?i @ [kv]]"
  have lb: "length ?b' = ?n" using Cons.prems(2) by simp
  have eq: "?b' ! i @ routedTo hash ?n i kvs = b ! i @ routedTo hash ?n i (kv # kvs)" if "i < ?n" for i
    using that Cons.prems(2) by (cases "i = ?i") (simp_all add: routedTo_def)
  have "assignBatches hash s (kv # kvs) b = assignBatches hash s kvs ?b'"
    by (simp add: ix)
  also have "\<dots> = Inr (map (\<lambda>i. ?b' ! i @ routedTo hash ?n i kvs) [0..<?n])"
    by (rule Cons.IH[OF Cons.prems(1) lb])
  also have "\<dots> = Inr (map (\<lambda>i. b ! i @ routedTo hash ?n i (kv # kvs)) [0..<?n])"
    using eq by simp
  finally show ?case .
qed

lemma insertBatches_routed:
  assumes "store_inv s" "positive_capacity s" "distinct is" "\<forall>i \<in> set is. i < length (shards s)"
  shows "insertBatches b is s =
           Inr (s\<lparr>shards := map (\<lambda>i. if i \<in> set is then putBatch_result (shards s ! i) (b ! i)
                                      else shards s ! i) [0..<length (shards s)]\<rparr>)"
  using assms
proof (induction "is" arbitrary: s)
  case Nil
  then show ?case by (simp add: map_nth)
next
  case (Cons i0 "is")
  let ?n = "length (shards s)"
  from Cons.prems have lt: "i0 < ?n" and d: "distinct is" and notin: "i0 \<notin> set is"
    and below: "\<forall>i \<in> set is. i < ?n" by simp_all
  show ?case
  proof (cases "b ! i0 = []")
    case True
    have "insertBatches b (i0 # is) s = insertBatches b is s" using True by simp
    also have "\<dots> = Inr (s\<lparr>shards := map (\<lambda>i. if i \<in> set is then putBatch_result (shards s ! i) (b ! i)
                                      else shards s ! i) [0..<?n]\<rparr>)"
      by (rule Cons.IH[OF Cons.prems(1,2) d below])
    also have "\<dots> = Inr (s\<lparr>shards := map (\<lambda>i. if i \<in> set (i0 # is) then putBatch_result (shards s ! i) (b ! i)
                                      else shards s ! i) [0..<?n]\<rparr>)"
      using True by (auto simp: putBatch_result_Nil)
    finally show ?thesis .
  next
    case False
    have inv: "shard_inv (shards s ! i0)" by (rule store_inv_nth[OF Cons.prems(1) lt])
    have c: "0 < capacity (shards s ! i0)" using Cons.prems(2) lt by (simp add: positive_capacity_def)
    let ?sh1 = "putBatch_result (shards s ! i0) (b ! i0)"
    note ok = putBatch_result_ok[OF inv c, of "b ! i0"]
    let ?s1 = "s\<lparr>shards := (shards s)[i0 := ?sh1]\<rparr>"
    from ok c have c1: "0 < capacity ?sh1" by simp
    from store_inv_update[OF Cons.prems(1,2) lt ok(2) c1]
    have g1: "store_inv ?s1" "positive_capacity ?s1" by simp_all
    have below1: "\<forall>i \<in> set is. i < length (shards ?s1)" using below by simp
    have eq: "(if i \<in> set is then putBatch_result (shards ?s1 ! i) (b ! i) else shards ?s1 ! i) =
              (if i \<in> set (i0 # is) then putBatch_result (shards s ! i) (b ! i) else shards s ! i)"
      if "i < ?n" for i
      using that notin by (cases "i = i0") simp_all
    have "insertBatches b (i0 # is) s = insertBatches b is ?s1" using False ok(1) by simp
    also have "\<dots> = Inr (?s1\<lparr>shards := map (\<lambda>i. if i \<in> set is then putBatch_result (shards ?s1 ! i) (b ! i)
                                      else shards ?s1 ! i) [0..<length (shards ?s1)]\<rparr>)"
      by (rule Cons.IH[OF g1 d below1])
    also have "\<dots> = Inr (s\<lparr>shards := map (\<lambda>i. if i \<in> set (i0 # is) then putBatch_result (shards s ! i) (b ! i)
                                      else shards s ! i) [0..<?n]\<rparr>)"
      using eq by simp
    finally show ?thesis .
  qed
qed

lemma example_store_positive: "positive_capacity example_store"
  by (simp add: positive_capacity_def example_store_def example_two_shard_def new_Shard_def)

subsection \<open>Every store reached from the constructor is well formed\<close>

lemma putInShard_dom:
  assumes inv: "shard_inv sh" and r: "putInShard sh key v = Inr (sh', b)"
  shows "dom (store sh') \<subseteq> insert key (dom (store sh))"
proof (cases "store sh key")
  case (Some e)
  from putInShard_existing[OF inv Some, of v] r show ?thesis by auto
next
  case None
  show ?thesis
  proof (cases "capacity sh \<le> card (dom (store sh))")
    case False
    then have "card (dom (store sh)) < capacity sh" by simp
    from putInShard_new_room[OF None this, of v] r show ?thesis by auto
  next
    case True
    show ?thesis
    proof (cases "recencyList sh = []")
      case True
      with None \<open>capacity sh \<le> card (dom (store sh))\<close> r show ?thesis
        by (simp add: putInShard_def list_back_def)
    next
      case False
      from putInShard_new_full[OF None True False, of v] r show ?thesis by auto
    qed
  qed
qed

lemma getFromShard_dom:
  "getFromShard sh key v = Inr (sh', v', b) \<Longrightarrow> dom (store sh') \<subseteq> dom (store sh)"
  by (auto simp: getFromShard_def split: option.splits sum.splits if_splits)

lemma delFromShard_dom:
  "delFromShard sh key = Inr (sh', b) \<Longrightarrow> dom (store sh') \<subseteq> dom (store sh)"
  by (auto simp: delFromShard_def split: option.splits sum.splits if_splits)

lemma good_store_update:
  assumes g: "good_store hash n s" and i: "i = hash key mod n"
    and inv: "shard_inv sh" and c: "capacity sh = capacity (shards s ! i)"
    and d: "dom (store sh) \<subseteq> insert key (dom (store (shards s ! i)))"
  shows "good_store hash n (s\<lparr>shards := (shards s)[i := sh]\<rparr>)"
proof -
  from g have len: "length (shards s) = n" and si: "store_inv s" and pc: "positive_capacity s"
    and kr: "keys_routed hash s" by (simp_all add: good_store_def)
  from si len have "0 < n" by (auto simp: store_inv_def)
  with i len have lt: "i < length (shards s)" by simp
  from pc lt c have c': "0 < capacity sh" by (simp add: positive_capacity_def)
  from store_inv_update[OF si pc lt inv c']
  have 1: "store_inv (s\<lparr>shards := (shards s)[i := sh]\<rparr>)"
    and 2: "positive_capacity (s\<lparr>shards := (shards s)[i := sh]\<rparr>)" by simp_all
  have 3: "keys_routed hash (s\<lparr>shards := (shards s)[i := sh]\<rparr>)"
    unfolding keys_routed_def
  proof (intro allI impI ballI)
    fix j k
    assume j: "j < length (shards (s\<lparr>shards := (shards s)[i := sh]\<rparr>))"
      and k: "k \<in> dom (store (shards (s\<lparr>shards := (shards s)[i := sh]\<rparr>) ! j))"
    show "hash k mod length (shards (s\<lparr>shards := (shards s)[i := sh]\<rparr>)) = j"
    proof (cases "j = i")
      case True
      with k lt have "k \<in> dom (store sh)" by simp
      with d have "k = key \<or> k \<in> dom (store (shards s ! i))" by auto
      then show ?thesis
      proof
        assume "k = key"
        with i len True show ?thesis by simp
      next
        assume "k \<in> dom (store (shards s ! i))"
        with kr lt True show ?thesis by (simp add: keys_routed_def)
      qed
    next
      case False
      with k j have "k \<in> dom (store (shards s ! j))" "j < length (shards s)" by simp_all
      with kr show ?thesis by (simp add: keys_routed_def)
    qed
  qed
  from len 1 2 3 show ?thesis by (simp add: good_store_def)
qed

lemma put_good:
  assumes g: "good_store hash n s"
  shows "\<exists>s'. put hash s key v = Inr (s', True) \<and> good_store hash n s'"
proof -
  from g have len: "length (shards s) = n" and si: "store_inv s" and pc: "positive_capacity s"
    by (simp_all add: good_store_def)
  let ?i = "hash key mod length (shards s)"
  from put_returns[OF si pc, of hash key v] obtain sh1 where
    p: "putInShard (shards s ! ?i) key v = Inr (sh1, True)" and i1: "shard_inv sh1"
    and r: "put hash s key v = Inr (s\<lparr>shards := (shards s)[?i := sh1]\<rparr>, True)"
    by blast
  from si have "shards s \<noteq> []" by (simp add: store_inv_def)
  then have lt: "?i < length (shards s)" by simp
  note inv = store_inv_nth[OF si lt]
  from putInShard_inv[OF inv p] have c: "capacity sh1 = capacity (shards s ! ?i)" by simp
  from len have eq: "?i = hash key mod n" by simp
  have "good_store hash n (s\<lparr>shards := (shards s)[?i := sh1]\<rparr>)"
    by (rule good_store_update[OF g eq i1 c putInShard_dom[OF inv p]])
  with r show ?thesis by simp
qed

lemma get_good:
  assumes g: "good_store hash n s"
  shows "\<exists>s' v' b. get hash s key v = Inr (s', v', b) \<and> good_store hash n s'"
proof -
  from g have len: "length (shards s) = n" and si: "store_inv s"
    by (simp_all add: good_store_def)
  let ?i = "hash key mod length (shards s)"
  from si have ne: "shards s \<noteq> []" by (simp add: store_inv_def)
  from shardIndex_returns[OF ne, of hash key] have ix: "shardIndex hash s key = Inr ?i"
    and lt: "?i < length (shards s)" by simp_all
  note inv = store_inv_nth[OF si lt]
  from getFromShard_returns[OF inv, of key v] obtain sh1 v' b where
    p: "getFromShard (shards s ! ?i) key v = Inr (sh1, v', b)" by blast
  from getFromShard_inv[OF inv p] have i1: "shard_inv sh1"
    and c: "capacity sh1 = capacity (shards s ! ?i)" by simp_all
  from getFromShard_dom[OF p] have d: "dom (store sh1) \<subseteq> insert key (dom (store (shards s ! ?i)))"
    by auto
  from len have eq: "?i = hash key mod n" by simp
  have "good_store hash n (s\<lparr>shards := (shards s)[?i := sh1]\<rparr>)"
    by (rule good_store_update[OF g eq i1 c d])
  moreover have "get hash s key v = Inr (s\<lparr>shards := (shards s)[?i := sh1]\<rparr>, v', b)"
    by (simp add: get_def ix p)
  ultimately show ?thesis by blast
qed

lemma del_good:
  assumes g: "good_store hash n s"
  shows "\<exists>s' b. del hash s key = Inr (s', b) \<and> good_store hash n s'"
proof -
  from g have len: "length (shards s) = n" and si: "store_inv s"
    by (simp_all add: good_store_def)
  let ?i = "hash key mod length (shards s)"
  from si have ne: "shards s \<noteq> []" by (simp add: store_inv_def)
  from shardIndex_returns[OF ne, of hash key] have ix: "shardIndex hash s key = Inr ?i"
    and lt: "?i < length (shards s)" by simp_all
  note inv = store_inv_nth[OF si lt]
  from delFromShard_returns[OF inv, of key] obtain sh1 b where
    p: "delFromShard (shards s ! ?i) key = Inr (sh1, b)" by blast
  from delFromShard_inv[OF inv p] have i1: "shard_inv sh1"
    and c: "capacity sh1 = capacity (shards s ! ?i)" by simp_all
  from delFromShard_dom[OF p] have d: "dom (store sh1) \<subseteq> insert key (dom (store (shards s ! ?i)))"
    by auto
  from len have eq: "?i = hash key mod n" by simp
  have "good_store hash n (s\<lparr>shards := (shards s)[?i := sh1]\<rparr>)"
    by (rule good_store_update[OF g eq i1 c d])
  moreover have "del hash s key = Inr (s\<lparr>shards := (shards s)[?i := sh1]\<rparr>, b)"
    by (simp add: del_def ix p)
  ultimately show ?thesis by blast
qed

lemma put_each_good:
  "good_store hash n s \<Longrightarrow> \<exists>s'. put_each hash s kvs = Inr s' \<and> good_store hash n s'"
proof (induction kvs arbitrary: s)
  case Nil
  then show ?case by simp
next
  case (Cons kv kvs)
  from put_good[OF Cons.prems, of "fst kv" "snd kv"] obtain s1 where
    p: "put hash s (fst kv) (snd kv) = Inr (s1, True)" and g1: "good_store hash n s1" by blast
  from Cons.IH[OF g1] p show ?case by simp
qed

lemma putMany_routed:
  assumes "store_inv s" and "positive_capacity s"
  shows "putMany hash s kvs =
           Inr (s\<lparr>shards := map (\<lambda>i. putBatch_result (shards s ! i) (routedTo hash (length (shards s)) i kvs))
                               [0..<length (shards s)]\<rparr>)"
proof -
  let ?n = "length (shards s)"
  let ?b = "map (\<lambda>i. routedTo hash ?n i kvs) [0..<?n]"
  from assms(1) have ne: "shards s \<noteq> []" by (simp add: store_inv_def)
  have a: "assignBatches hash s kvs (replicate ?n []) = Inr ?b"
    using assignBatches_routed[OF ne, of "replicate ?n []" hash kvs] by simp
  have "insertBatches ?b [0..<?n] s =
          Inr (s\<lparr>shards := map (\<lambda>i. if i \<in> set [0..<?n] then putBatch_result (shards s ! i) (?b ! i)
                                      else shards s ! i) [0..<?n]\<rparr>)"
    by (rule insertBatches_routed[OF assms]) simp_all
  also have "\<dots> = Inr (s\<lparr>shards := map (\<lambda>i. putBatch_result (shards s ! i) (routedTo hash ?n i kvs)) [0..<?n]\<rparr>)"
    by simp
  finally show ?thesis by (simp add: putMany_def a)
qed

lemma putMany_good:
  assumes g: "good_store hash n s"
  shows "\<exists>s'. putMany hash s kvs = Inr s' \<and> good_store hash n s'"
proof -
  from g have si: "store_inv s" and pc: "positive_capacity s" by (simp_all add: good_store_def)
  from put_each_good[OF g, of kvs] put_each_routed[OF si pc, of hash kvs]
    putMany_routed[OF si pc, of hash kvs]
  show ?thesis by simp
qed

lemma clear_good:
  assumes g: "good_store hash n s"
  shows "good_store hash n (clear s)"
  using g clearShard_inv
  by (auto simp: good_store_def clear_def store_inv_def positive_capacity_def keys_routed_def
      clearShard_def)

lemma new_Store_good:
  "0 < shard_capacity \<Longrightarrow> 0 < total_shards \<Longrightarrow>
   good_store hash total_shards (new_Store shard_capacity total_shards)"
  using new_Shard_inv[of shard_capacity]
  by (auto simp: good_store_def new_Store_def store_inv_def positive_capacity_def keys_routed_def
      new_Shard_def)

lemma applyStoreOp_good:
  assumes g: "good_store hash n s"
  shows "\<exists>s'. applyStoreOp hash s x = Inr s' \<and> good_store hash n s'"
proof (cases x)
  case (OpPut key val)
  with put_good[OF g, of key val] show ?thesis by auto
next
  case (OpGet key val)
  with get_good[OF g, of key val] show ?thesis by auto
next
  case (OpDel key)
  with del_good[OF g, of key] show ?thesis by auto
next
  case (OpPutMany kvs)
  with putMany_good[OF g, of kvs] show ?thesis by auto
next
  case OpClear
  with clear_good[OF g] show ?thesis by auto
qed

lemma runStoreOps_good:
  "good_store hash n s \<Longrightarrow> \<exists>s'. runStoreOps hash s xs = Inr s' \<and> good_store hash n s'"
proof (induction xs arbitrary: s)
  case Nil
  then show ?case by simp
next
  case (Cons x xs)
  from applyStoreOp_good[OF Cons.prems, of x] obtain s1 where
    a: "applyStoreOp hash s x = Inr s1" and g1: "good_store hash n s1" by blast
  from Cons.IH[OF g1] a show ?case by simp
qed

lemma reachable_store_good:
  assumes "0 < shard_capacity" "0 < total_shards"
  shows "\<exists>s. runStoreOps hash (new_Store shard_capacity total_shards) xs = Inr s \<and>
           length (shards s) = total_shards \<and> store_inv s \<and> positive_capacity s \<and>
           keys_routed hash s"
  using runStoreOps_good[OF new_Store_good[OF assms, of hash], of xs]
  by (simp add: good_store_def)

subsection \<open>The recency list is in touch order\<close>

lemma since_touch_snoc:
  "since_touch (tr @ [t]) k = (if t = Some k then 0 else Suc (since_touch tr k))"
  by (simp add: since_touch_def)

lemma touch_order_keep:
  assumes "touch_order tr ks" and "\<forall>k. t = Some k \<longrightarrow> k \<notin> set ks"
  shows "touch_order (tr @ [t]) ks"
  using assms unfolding touch_order_def
  by (elim sorted_wrt_mono_rel[rotated]) (auto simp: since_touch_snoc)

lemma touch_order_front:
  assumes "touch_order tr ks" and "k \<notin> set ks"
  shows "touch_order (tr @ [Some k]) (k # ks)"
proof -
  from touch_order_keep[OF assms(1), of "Some k"] assms(2)
  have "touch_order (tr @ [Some k]) ks" by simp
  moreover have "\<forall>y \<in> set ks. since_touch (tr @ [Some k]) k < since_touch (tr @ [Some k]) y"
    using assms(2) by (auto simp: since_touch_snoc)
  ultimately show ?thesis by (simp add: touch_order_def)
qed

lemma touch_order_filter: "touch_order tr ks \<Longrightarrow> touch_order tr (filter P ks)"
  by (simp add: touch_order_def sorted_wrt_filter)

lemma butlast_filter_last:
  assumes "distinct xs" "xs \<noteq> []"
  shows "butlast xs = filter (\<lambda>x. x \<noteq> last xs) xs"
proof -
  from assms(2) obtain ys y where xs: "xs = ys @ [y]" by (cases xs rule: rev_cases) auto
  with assms(1) have "y \<notin> set ys" by simp
  then have "filter (\<lambda>x. x \<noteq> y) ys = ys" by (auto simp: filter_id_conv)
  with xs show ?thesis by simp
qed

lemma inv_distinct_keys: "shard_inv sh \<Longrightarrow> distinct (recencyKeys sh)"
  by (simp add: shard_inv_def recencyKeys_def)

lemma put_new_full_keys:
  assumes inv: "shard_inv sh" and e: "store sh key = None"
    and c: "capacity sh \<le> card (dom (store sh))" and ne: "recencyList sh \<noteq> []"
  shows "\<exists>sh'. putInShard sh key v = Inr (sh', True) \<and> shard_inv sh' \<and>
           capacity sh' = capacity sh \<and>
           recencyKeys sh' = key # butlast (recencyKeys sh) \<and>
           contents sh' = ((contents sh)(last (recencyKeys sh) := None))(key \<mapsto> v)"
proof -
  note p = putInShard_new_full[OF e c ne, of v]
  from putInShard_inv[OF inv p] p ne show ?thesis
    by (auto simp: recencyKeys_def contents_def map_butlast last_map)
qed

lemma putInShard_keys:
  assumes inv: "shard_inv sh" and r: "putInShard sh key v = Inr (sh', b)"
  shows "\<exists>P. recencyKeys sh' = key # filter P (recencyKeys sh) \<and>
             key \<notin> set (filter P (recencyKeys sh))"
proof (cases "store sh key")
  case (Some e)
  from put_existing_abs[OF inv Some, of v] r
  have "recencyKeys sh' = key # filter (\<lambda>k. k \<noteq> key) (recencyKeys sh)" by auto
  then show ?thesis by (intro exI[of _ "\<lambda>k. k \<noteq> key"]) simp
next
  case None
  with inv_dom[OF inv] have notin: "key \<notin> set (recencyKeys sh)" by auto
  show ?thesis
  proof (cases "capacity sh \<le> card (dom (store sh))")
    case False
    then have "card (dom (store sh)) < capacity sh" by simp
    from put_new_room_abs[OF inv None this, of v] r
    have "recencyKeys sh' = key # recencyKeys sh" by auto
    with notin show ?thesis by (intro exI[of _ "\<lambda>k. True"]) simp
  next
    case True
    show ?thesis
    proof (cases "recencyList sh = []")
      case True
      with None \<open>capacity sh \<le> card (dom (store sh))\<close> r show ?thesis
        by (simp add: putInShard_def list_back_def)
    next
      case False
      then have kne: "recencyKeys sh \<noteq> []" by (simp add: recencyKeys_def)
      from put_new_full_keys[OF inv None True False, of v] r
      have "recencyKeys sh' = key # butlast (recencyKeys sh)" by auto
      with butlast_filter_last[OF inv_distinct_keys[OF inv] kne]
      have k: "recencyKeys sh' = key # filter (\<lambda>x. x \<noteq> last (recencyKeys sh)) (recencyKeys sh)"
        by simp
      with notin show ?thesis by (intro exI[of _ "\<lambda>x. x \<noteq> last (recencyKeys sh)"]) simp
    qed
  qed
qed

lemma applyOp_touch_order:
  assumes inv: "shard_inv sh" and r: "applyOp sh x = Inr sh'"
    and o: "touch_order tr (recencyKeys sh)"
  shows "touch_order (tr @ [touch_of sh x]) (recencyKeys sh')"
proof (cases x)
  case (Put key val)
  with r obtain b where p: "putInShard sh key val = Inr (sh', b)" by (auto split: sum.splits)
  from putInShard_keys[OF inv p] obtain P where
    k: "recencyKeys sh' = key # filter P (recencyKeys sh)"
    and n: "key \<notin> set (filter P (recencyKeys sh))" by blast
  from touch_order_front[OF touch_order_filter[OF o, of P] n] k Put show ?thesis by simp
next
  case (Get key val)
  show ?thesis
  proof (cases "store sh key")
    case None
    with r Get have "sh' = sh" by (simp add: getFromShard_def)
    with touch_order_keep[OF o, of None] None Get show ?thesis by simp
  next
    case (Some e)
    from get_present_abs[OF inv Some, of val] r Get
    have k: "recencyKeys sh' = key # filter (\<lambda>k. k \<noteq> key) (recencyKeys sh)" by auto
    have n: "key \<notin> set (filter (\<lambda>k. k \<noteq> key) (recencyKeys sh))" by simp
    from touch_order_front[OF touch_order_filter[OF o, of "\<lambda>k. k \<noteq> key"] n] k Some Get
    show ?thesis by simp
  qed
next
  case (Del key)
  have k: "\<exists>P. recencyKeys sh' = filter P (recencyKeys sh)"
  proof (cases "store sh key")
    case None
    with r Del have "sh' = sh" by (simp add: delFromShard_def)
    then show ?thesis by (intro exI[of _ "\<lambda>k. True"]) simp
  next
    case (Some e)
    from del_present_abs[OF inv Some] r Del
    have "recencyKeys sh' = filter (\<lambda>k. k \<noteq> key) (recencyKeys sh)" by auto
    then show ?thesis by blast
  qed
  then obtain P where "recencyKeys sh' = filter P (recencyKeys sh)" by blast
  with touch_order_keep[OF touch_order_filter[OF o, of P], of None] Del show ?thesis by simp
next
  case Clear
  with r have "recencyKeys sh' = []" by (auto simp: clearShard_def recencyKeys_def)
  with Clear show ?thesis by (simp add: touch_order_def)
qed

lemma runOps_append:
  "runOps sh (xs @ ys) = (case runOps sh xs of Inl e \<Rightarrow> Inl e | Inr sh' \<Rightarrow> runOps sh' ys)"
  by (induction xs arbitrary: sh) (auto split: sum.splits)

lemma touch_trace_snoc:
  "runOps sh xs = Inr sh' \<Longrightarrow> touch_trace sh (xs @ [x]) = touch_trace sh xs @ [touch_of sh' x]"
  by (induction xs arbitrary: sh) (auto split: sum.splits)

lemma runOps_touch_order:
  "runOps (new_Shard C) ops = Inr sh \<Longrightarrow>
   touch_order (touch_trace (new_Shard C) ops) (recencyKeys sh)"
proof (induction ops arbitrary: sh rule: rev_induct)
  case Nil
  then show ?case by (auto simp: touch_order_def new_Shard_def recencyKeys_def)
next
  case (snoc x xs)
  from snoc.prems obtain sh1 where r1: "runOps (new_Shard C) xs = Inr sh1"
    and a: "applyOp sh1 x = Inr sh"
    by (auto simp: runOps_append split: sum.splits)
  from runOps_inv[OF new_Shard_inv r1] have inv: "shard_inv sh1" by simp
  from applyOp_touch_order[OF inv a snoc.IH[OF r1]] touch_trace_snoc[OF r1, of x]
  show ?case by simp
qed

lemma touch_order_last:
  assumes o: "touch_order tr ks" and d: "distinct ks" and k: "k \<in> set ks" "k \<noteq> last ks"
  shows "since_touch tr k < since_touch tr (last ks)"
proof -
  from k(1) have ne: "ks \<noteq> []" by auto
  then have ks: "ks = butlast ks @ [last ks]" by simp
  with k have "k \<in> set (butlast ks)" by (metis Un_iff empty_iff insert_iff list.set(1,2) set_append)
  moreover from o have "sorted_wrt (\<lambda>a b. since_touch tr a < since_touch tr b) (butlast ks @ [last ks])"
    using ks by (simp add: touch_order_def)
  ultimately show ?thesis by (simp add: sorted_wrt_append)
qed

lemma example_read_shard_run:
  "runOps (new_Shard 2) [Put ''A'' ''1'', Put ''B'' ''2'', Get ''A'' ''old''] = Inr example_read_shard"
  by (simp add: eval_defs example_read_shard_def) (auto simp: fun_eq_iff)

lemma example_read_shard_trace:
  "touch_trace (new_Shard 2) [Put ''A'' ''1'', Put ''B'' ''2'', Get ''A'' ''old'']
     = [Some ''A'', Some ''B'', Some ''A'']"
  by (simp add: eval_defs)

lemma put_new_full_dom:
  assumes inv: "shard_inv sh" and e: "store sh key = None"
    and c: "capacity sh \<le> card (dom (store sh))" and pos: "0 < capacity sh"
  shows "\<exists>sh'. putInShard sh key v = Inr (sh', True) \<and>
           recencyKeys sh' = key # butlast (recencyKeys sh) \<and>
           contents sh' = ((contents sh)(last (recencyKeys sh) := None))(key \<mapsto> v) \<and>
           dom (store sh') = insert key (dom (store sh) - {last (recencyKeys sh)}) \<and>
           last (recencyKeys sh) \<in> dom (store sh)"
proof -
  from put_new_full_abs[OF inv e c pos, of v] obtain sh' where
    p: "putInShard sh key v = Inr (sh', True)"
    and k: "recencyKeys sh' = key # butlast (recencyKeys sh)"
    and m: "contents sh' = ((contents sh)(last (recencyKeys sh) := None))(key \<mapsto> v)"
    by blast
  have "dom (store sh') = dom (((contents sh)(last (recencyKeys sh) := None))(key \<mapsto> v))"
    using m dom_contents[of sh'] by simp
  then have d: "dom (store sh') = insert key (dom (store sh) - {last (recencyKeys sh)})"
    by (simp add: dom_contents)
  from c pos inv_card[OF inv] have "recencyKeys sh \<noteq> []" by (auto simp: recencyKeys_def)
  then have "last (recencyKeys sh) \<in> set (recencyKeys sh)" by simp
  with inv_dom[OF inv] have l: "last (recencyKeys sh) \<in> dom (store sh)" by simp
  from p k m d l show ?thesis by blast
qed

lemma put_new_room_dom:
  assumes inv: "shard_inv sh" and e: "store sh key = None"
    and c: "card (dom (store sh)) < capacity sh"
  shows "\<exists>sh'. putInShard sh key v = Inr (sh', True) \<and>
           recencyKeys sh' = key # recencyKeys sh \<and>
           contents sh' = (contents sh)(key \<mapsto> v) \<and>
           dom (store sh') = insert key (dom (store sh))"
proof -
  from put_new_room_abs[OF inv e c, of v] obtain sh' where
    p: "putInShard sh key v = Inr (sh', True)"
    and k: "recencyKeys sh' = key # recencyKeys sh"
    and m: "contents sh' = (contents sh)(key \<mapsto> v)"
    by blast
  have "dom (store sh') = dom ((contents sh)(key \<mapsto> v))"
    using m dom_contents[of sh'] by simp
  then have d: "dom (store sh') = insert key (dom (store sh))"
    by (simp add: dom_contents)
  from p k m d show ?thesis by blast
qed

lemma run_then_evict:
  assumes r: "runOps (new_Shard C) ops = Inr sh" and pos: "0 < C"
    and e: "store sh key = None" and c: "capacity sh \<le> card (dom (store sh))"
  shows "\<exists>sh' lru. runOps (new_Shard C) (ops @ [Put key v]) = Inr sh' \<and>
           lru = last (recencyKeys sh) \<and> lru \<in> dom (store sh) \<and>
           dom (store sh') = insert key (dom (store sh) - {lru}) \<and>
           (\<forall>k \<in> dom (store sh). k \<noteq> lru \<longrightarrow>
              since_touch (touch_trace (new_Shard C) ops) k
                < since_touch (touch_trace (new_Shard C) ops) lru)"
proof -
  from runOps_inv[OF new_Shard_inv r] have inv: "shard_inv sh" and cap: "capacity sh = C"
    by (simp_all add: new_Shard_def)
  from cap pos have pos': "0 < capacity sh" by simp
  from put_new_full_dom[OF inv e c pos', of v] obtain sh' where
    p: "putInShard sh key v = Inr (sh', True)"
    and d: "dom (store sh') = insert key (dom (store sh) - {last (recencyKeys sh)})"
    and l: "last (recencyKeys sh) \<in> dom (store sh)"
    by blast
  have 1: "runOps (new_Shard C) (ops @ [Put key v]) = Inr sh'"
    using r p by (simp add: runOps_append)
  note o = runOps_touch_order[OF r]
  have 2: "\<forall>k \<in> dom (store sh). k \<noteq> last (recencyKeys sh) \<longrightarrow>
              since_touch (touch_trace (new_Shard C) ops) k
                < since_touch (touch_trace (new_Shard C) ops) (last (recencyKeys sh))"
    using touch_order_last[OF o inv_distinct_keys[OF inv]] inv_dom[OF inv] by simp
  from 1 d l 2 show ?thesis by blast
qed

subsection \<open>The capacity bound\<close>

text \<open>
  C1. A shard constructed with a positive capacity \<open>C\<close> holds at most \<open>C\<close> keys after
  every prefix of every sequence of puts: each prefix runs without error, leaves the
  capacity as constructed, and leaves at most \<open>C\<close> keys in the index.
\<close>

theorem capacity_invariant:
  assumes "0 < C"
  shows "\<exists>sh. putBatch (new_Shard C) (take n kvs) = Inr sh \<and> capacity sh = C \<and>
           card (dom (store sh)) \<le> C"
  using putBatch_bounded[of "new_Shard C" "take n kvs"] new_Shard_inv[of C] assms
  by (auto simp: new_Shard_def)

theorem capacity_invariant_witness:
  "0 < (2::nat) \<and>
   (\<exists>sh. putBatch (new_Shard 2) (take 3 [(''A'', ''1''), (''B'', ''2''), (''C'', ''3'')]) = Inr sh \<and>
         capacity sh = 2 \<and> card (dom (store sh)) \<le> 2)"
  using capacity_invariant[of 2 3 "[(''A'', ''1''), (''B'', ''2''), (''C'', ''3'')]"] by simp

subsection \<open>Consistency of index and recency list\<close>

text \<open>
  C3. Starting from the empty shard, every sequence of \<open>putInShard\<close>, \<open>getFromShard\<close>,
  \<open>delFromShard\<close> and clear that returns leaves as many keys in the index as there are
  nodes in the recency list, and the same set of keys in both; and with a positive
  capacity every such sequence returns.
\<close>

theorem consistency_invariant:
  "(0 < C \<longrightarrow> (\<exists>sh. runOps (new_Shard C) ops = Inr sh)) \<and>
   (\<forall>sh. runOps (new_Shard C) ops = Inr sh \<longrightarrow>
      card (dom (store sh)) = length (recencyList sh) \<and>
      dom (store sh) = set (recencyKeys sh))"
proof (intro conjI impI allI)
  assume "0 < C"
  then show "\<exists>sh. runOps (new_Shard C) ops = Inr sh"
    using runOps_returns[OF new_Shard_inv, of C ops] by (simp add: new_Shard_def)
next
  fix sh assume "runOps (new_Shard C) ops = Inr sh"
  from runOps_inv[OF new_Shard_inv this] have i: "shard_inv sh" by simp
  from inv_card[OF i] show "card (dom (store sh)) = length (recencyList sh)" .
  from inv_dom[OF i] show "dom (store sh) = set (recencyKeys sh)" .
qed

theorem consistency_invariant_witness:
  "0 < (2::nat) \<and>
   (\<exists>sh. runOps (new_Shard 2)
           [Put ''A'' ''1'', Put ''B'' ''2'', Get ''A'' [], Put ''C'' ''3'', Del ''A'',
            Put ''D'' ''4'', Clear, Put ''E'' ''5''] = Inr sh \<and>
         card (dom (store sh)) = length (recencyList sh) \<and>
         dom (store sh) = set (recencyKeys sh))"
  using consistency_invariant[of 2
           "[Put ''A'' ''1'', Put ''B'' ''2'', Get ''A'' [], Put ''C'' ''3'', Del ''A'',
             Put ''D'' ''4'', Clear, Put ''E'' ''5'']"]
  by (simp add: eval_defs)

subsection \<open>Reading a key that is absent\<close>

text \<open>
  C7. When the key is absent from the shard it is routed to, \<open>get\<close> returns found = false
  and the store after the call is the store before it: the index and the recency list of
  every shard are unchanged.
\<close>

theorem get_absent_no_mutation:
  assumes "shardIndex hash s key = Inr i" and "store (shards s ! i) key = None"
  shows "get hash s key v = Inr (s, v, False)"
  using assms by (simp add: get_def getFromShard_def)

theorem get_absent_no_mutation_witness:
  "shardIndex (\<lambda>k. length k) (new_Store 2 3) ''A'' = Inr 1 \<and>
   store (shards (new_Store 2 3) ! 1) ''A'' = None \<and>
   get (\<lambda>k. length k) (new_Store 2 3) ''A'' ''old'' = Inr (new_Store 2 3, ''old'', False)"
proof -
  have i: "shardIndex (\<lambda>k. length k) (new_Store 2 3) ''A'' = Inr 1"
    by (simp add: shardIndex_def new_Store_def)
  have a: "store (shards (new_Store 2 3) ! 1) ''A'' = None"
    by (simp add: new_Store_def new_Shard_def numeral_3_eq_3)
  from i a get_absent_no_mutation[OF i a, of "''old''"] show ?thesis by simp
qed

text \<open>
  C10. When \<open>get\<close> (or \<open>getFromShard\<close>) returns found = false, the caller's output
  variable holds what it held before the call; when \<open>getFromShard\<close> returns found = true
  the variable holds the value stored with the key.
\<close>

theorem get_not_found_value_untouched:
  "(get hash s key v = Inr (s', v', False) \<longrightarrow> v' = v) \<and>
   (getFromShard sh k w = Inr (sh', w', False) \<longrightarrow> w' = w) \<and>
   (getFromShard sh2 k2 w2 = Inr (sh2', w2', True) \<longrightarrow>
      (\<exists>e. store sh2 k2 = Some e \<and> w2' = entry_value e))"
  by (auto simp: get_def getFromShard_def split: sum.splits option.splits)

theorem get_not_found_value_untouched_witness:
  "get (\<lambda>k. length k) (new_Store 2 3) ''A'' ''old'' = Inr (new_Store 2 3, ''old'', False) \<and>
   getFromShard (new_Shard 2) ''A'' ''old'' = Inr (new_Shard 2, ''old'', False) \<and>
   getFromShard example_full_shard ''A'' ''old'' = Inr (example_full_shard, ''1'', True) \<and>
   (\<exists>e. store example_full_shard ''A'' = Some e \<and> ''1'' = entry_value e)"
proof -
  have g: "getFromShard (new_Shard 2) ''A'' ''old'' = Inr (new_Shard 2, ''old'', False)"
    by (simp add: getFromShard_def new_Shard_def)
  have i: "shardIndex (\<lambda>k. length k) (new_Store 2 3) ''A'' = Inr (Suc 0)"
    by (simp add: shardIndex_def new_Store_def)
  have n: "shards (new_Store 2 3) ! Suc 0 = new_Shard 2"
    by (simp add: new_Store_def)
  have u: "(new_Store 2 3)\<lparr>shards := (shards (new_Store 2 3))[Suc 0 := new_Shard 2]\<rparr> = new_Store 2 3"
    by (simp add: new_Store_def numeral_3_eq_3)
  have s: "get (\<lambda>k. length k) (new_Store 2 3) ''A'' ''old'' = Inr (new_Store 2 3, ''old'', False)"
    by (simp add: get_def i n g u)
  have t: "getFromShard example_full_shard ''A'' ''old'' = Inr (example_full_shard, ''1'', True)"
    by (simp add: example_full_shard_def eval_defs)
  from s g t get_not_found_value_untouched[of "\<lambda>k. length k" "new_Store 2 3" "''A''" "''old''"
      "new_Store 2 3" "''old''" "new_Shard 2" "''A''" "''old''" "new_Shard 2" "''old''"
      example_full_shard "''A''" "''old''" example_full_shard "''1''"]
  show ?thesis by blast
qed

subsection \<open>Routing\<close>

text \<open>
  C8. With a positive number of shards, \<open>shardIndex\<close> returns an index below the number of
  shards, and the index is the same for every store with the same number of shards: it
  depends on the key and the shard count only.
\<close>

theorem shardIndex_deterministic:
  assumes "0 < length (shards s)"
  shows "\<exists>i. shardIndex hash s key = Inr i \<and> i < length (shards s) \<and>
           (\<forall>s'. length (shards s') = length (shards s) \<longrightarrow> shardIndex hash s' key = Inr i)"
  using assms by (simp add: shardIndex_def)

theorem shardIndex_deterministic_witness:
  "0 < length (shards (new_Store 2 3)) \<and>
   shardIndex (\<lambda>k. length k) (new_Store 2 3) ''AB'' = Inr 2 \<and>
   2 < length (shards (new_Store 2 3)) \<and>
   length (shards (new_Store 7 3)) = length (shards (new_Store 2 3)) \<and>
   shardIndex (\<lambda>k. length k) (new_Store 7 3) ''AB'' = Inr 2"
proof -
  have h: "0 < length (shards (new_Store 2 3))" by (simp add: new_Store_def)
  have l: "length (shards (new_Store 7 3)) = length (shards (new_Store 2 3))"
    by (simp add: new_Store_def)
  from shardIndex_deterministic[OF h, of "\<lambda>k. length k" "''AB''"] obtain i where
    i: "shardIndex (\<lambda>k. length k) (new_Store 2 3) ''AB'' = Inr i"
    and lt: "i < length (shards (new_Store 2 3))"
    and same: "\<forall>s'. length (shards s') = length (shards (new_Store 2 3)) \<longrightarrow>
                 shardIndex (\<lambda>k. length k) s' ''AB'' = Inr i"
    by (elim exE conjE)
  from i have i2: "i = 2" by (simp add: shardIndex_def new_Store_def)
  from same l have "shardIndex (\<lambda>k. length k) (new_Store 7 3) ''AB'' = Inr i" by simp
  with h l i lt i2 show ?thesis by simp
qed

subsection \<open>The eviction branch reads a non-empty list\<close>

text \<open>
  C9. When the capacity is at least 1 and the index has as many keys as the recency list
  has nodes, \<open>putInShard\<close> never reads the back of an empty list: whenever the eviction
  branch is taken (new key, index at capacity) the list is not empty, \<^verbatim>\<open>back()\<close> and
  \<^verbatim>\<open>pop_back()\<close> are defined, and the call returns.
\<close>

theorem eviction_back_defined:
  assumes "1 \<le> capacity sh" and "card (dom (store sh)) = length (recencyList sh)"
  shows "putInShard sh key v \<noteq> Inl EmptyList \<and>
         (store sh key = None \<and> capacity sh \<le> card (dom (store sh)) \<longrightarrow>
            recencyList sh \<noteq> [] \<and>
            list_back (recencyList sh) = Inr (snd (last (recencyList sh))) \<and>
            list_pop_back (recencyList sh) = Inr (butlast (recencyList sh)) \<and>
            (\<exists>sh'. putInShard sh key v = Inr (sh', True)))"
proof -
  have ne: "recencyList sh \<noteq> []" if "capacity sh \<le> card (dom (store sh))"
    using that assms by auto
  have 1: "putInShard sh key v \<noteq> Inl EmptyList"
  proof (cases "store sh key")
    case None
    show ?thesis
    proof (cases "capacity sh \<le> card (dom (store sh))")
      case True
      from putInShard_new_full[OF None True ne[OF True], of v] show ?thesis by simp
    next
      case False
      then have "card (dom (store sh)) < capacity sh" by simp
      from putInShard_new_room[OF None this, of v] show ?thesis by simp
    qed
  next
    case (Some e)
    then show ?thesis by (simp add: putInShard_def splice_begin_def split: option.splits)
  qed
  have 2: "recencyList sh \<noteq> [] \<and>
            list_back (recencyList sh) = Inr (snd (last (recencyList sh))) \<and>
            list_pop_back (recencyList sh) = Inr (butlast (recencyList sh)) \<and>
            (\<exists>sh'. putInShard sh key v = Inr (sh', True))"
    if n: "store sh key = None" and c: "capacity sh \<le> card (dom (store sh))"
    using ne[OF c] putInShard_new_full[OF n c ne[OF c], of v]
    by (simp add: list_back_def list_pop_back_def)
  from 1 2 show ?thesis by blast
qed

theorem eviction_back_defined_witness:
  "1 \<le> capacity example_full_shard \<and>
   card (dom (store example_full_shard)) = length (recencyList example_full_shard) \<and>
   store example_full_shard ''B'' = None \<and>
   capacity example_full_shard \<le> card (dom (store example_full_shard)) \<and>
   putInShard example_full_shard ''B'' ''2'' \<noteq> Inl EmptyList \<and>
   recencyList example_full_shard \<noteq> [] \<and>
   (\<exists>sh'. putInShard example_full_shard ''B'' ''2'' = Inr (sh', True))"
proof -
  have h1: "1 \<le> capacity example_full_shard" by (simp add: example_full_shard_def)
  have h2: "card (dom (store example_full_shard)) = length (recencyList example_full_shard)"
    by (simp add: example_full_shard_def)
  have h3: "store example_full_shard ''B'' = None" by (simp add: example_full_shard_def)
  have h4: "capacity example_full_shard \<le> card (dom (store example_full_shard))"
    by (simp add: example_full_shard_def)
  from eviction_back_defined[OF h1 h2, of "''B''" "''2''"] h1 h2 h3 h4 show ?thesis by blast
qed

subsection \<open>Least-recently-used eviction\<close>

text \<open>
  C2. Eviction removes the least recently touched key, and both put and get are a touch.

  On every well-formed shard: a get of a present key and a put of a present key make the
  key the front key of the recency list, the other keys keeping their order; a put of a
  new key on a shard that is full (with a positive capacity) removes exactly the back key
  of the recency list from the index and the list, and then makes the new key the front
  key; a put of a new key on a shard with room removes nothing.

  After every run of operations from the empty shard the recency list is in touch order,
  so its back key is the key touched least recently; and a put of a new key that finds
  the shard full evicts that key: every other key of the shard was touched more recently.

  Putting \<open>C + 1\<close> pairs with distinct keys into the empty shard of capacity \<open>C > 0\<close>
  leaves every key but the first one, with its value, the later keys nearer the front,
  and the first key is no longer found. With capacity 2, putting \<open>A\<close>, \<open>B\<close>, \<open>C\<close> leaves
  \<open>B\<close> and \<open>C\<close>; putting \<open>A\<close>, \<open>B\<close>, reading \<open>A\<close>, and putting \<open>C\<close> evicts \<open>B\<close>; so does
  putting \<open>A\<close>, \<open>B\<close>, \<open>A\<close> again, and \<open>C\<close>. With capacity 3, putting \<open>A\<close>, \<open>B\<close>, \<open>C\<close>,
  reading \<open>A\<close>, and putting \<open>D\<close> evicts \<open>B\<close>.
\<close>

theorem lru_eviction:
  "(0 < C \<and> distinct (map fst kvs) \<and> length kvs = Suc C \<longrightarrow>
      (\<exists>sh. putBatch (new_Shard C) kvs = Inr sh \<and>
            dom (store sh) = fst ` set kvs - {fst (hd kvs)} \<and>
            contents sh = (map_of kvs)(fst (hd kvs) := None) \<and>
            recencyKeys sh = rev (map fst (tl kvs)) \<and>
            getFromShard sh (fst (hd kvs)) v = Inr (sh, v, False))) \<and>
   (\<exists>sh. runOps (new_Shard 2) [Put ''A'' ''1'', Put ''B'' ''2'', Put ''C'' ''3''] = Inr sh \<and>
         dom (store sh) = {''B'', ''C''} \<and>
         getFromShard sh ''A'' v = Inr (sh, v, False)) \<and>
   (\<exists>sh. runOps (new_Shard 2) [Put ''A'' ''1'', Put ''B'' ''2'', Get ''A'' v, Put ''C'' ''3''] = Inr sh \<and>
         dom (store sh) = {''A'', ''C''} \<and> recencyKeys sh = [''C'', ''A''] \<and>
         contents sh ''A'' = Some ''1'' \<and> contents sh ''B'' = None \<and>
         contents sh ''C'' = Some ''3'') \<and>
   (\<exists>sh. runOps (new_Shard 2) [Put ''A'' ''1'', Put ''B'' ''2'', Put ''A'' ''10'', Put ''C'' ''3''] = Inr sh \<and>
         dom (store sh) = {''A'', ''C''} \<and> recencyKeys sh = [''C'', ''A''] \<and>
         contents sh ''A'' = Some ''10'' \<and> contents sh ''B'' = None) \<and>
   (\<exists>sh. runOps (new_Shard 3)
           [Put ''A'' ''1'', Put ''B'' ''2'', Put ''C'' ''3'', Get ''A'' v, Put ''D'' ''4''] = Inr sh \<and>
         dom (store sh) = {''A'', ''C'', ''D''} \<and> recencyKeys sh = [''D'', ''A'', ''C''] \<and>
         contents sh ''B'' = None) \<and>
   (shard_inv sh0 \<and> store sh0 key = Some e \<longrightarrow>
      (\<exists>sh'. getFromShard sh0 key v = Inr (sh', entry_value e, True) \<and>
             recencyKeys sh' = key # filter (\<lambda>k. k \<noteq> key) (recencyKeys sh0) \<and>
             contents sh' = contents sh0)) \<and>
   (shard_inv sh1 \<and> store sh1 k1 = Some e1 \<longrightarrow>
      (\<exists>sh'. putInShard sh1 k1 v1 = Inr (sh', True) \<and>
             recencyKeys sh' = k1 # filter (\<lambda>k. k \<noteq> k1) (recencyKeys sh1) \<and>
             contents sh' = (contents sh1)(k1 \<mapsto> v1) \<and>
             dom (store sh') = dom (store sh1))) \<and>
   (shard_inv sh2 \<and> store sh2 k2 = None \<and> capacity sh2 \<le> card (dom (store sh2)) \<and>
    0 < capacity sh2 \<longrightarrow>
      (\<exists>sh'. putInShard sh2 k2 v2 = Inr (sh', True) \<and>
             recencyKeys sh' = k2 # butlast (recencyKeys sh2) \<and>
             contents sh' = ((contents sh2)(last (recencyKeys sh2) := None))(k2 \<mapsto> v2) \<and>
             dom (store sh') = insert k2 (dom (store sh2) - {last (recencyKeys sh2)}) \<and>
             last (recencyKeys sh2) \<in> dom (store sh2))) \<and>
   (shard_inv sh3 \<and> store sh3 k3 = None \<and> card (dom (store sh3)) < capacity sh3 \<longrightarrow>
      (\<exists>sh'. putInShard sh3 k3 v3 = Inr (sh', True) \<and>
             recencyKeys sh' = k3 # recencyKeys sh3 \<and>
             contents sh' = (contents sh3)(k3 \<mapsto> v3) \<and>
             dom (store sh') = insert k3 (dom (store sh3)))) \<and>
   (runOps (new_Shard C4) ops = Inr sh4 \<longrightarrow>
      touch_order (touch_trace (new_Shard C4) ops) (recencyKeys sh4)) \<and>
   (runOps (new_Shard C5) ops5 = Inr sh5 \<and> 0 < C5 \<and> store sh5 k5 = None \<and>
    capacity sh5 \<le> card (dom (store sh5)) \<longrightarrow>
      (\<exists>sh' lru. runOps (new_Shard C5) (ops5 @ [Put k5 v5]) = Inr sh' \<and>
             lru = last (recencyKeys sh5) \<and> lru \<in> dom (store sh5) \<and>
             dom (store sh') = insert k5 (dom (store sh5) - {lru}) \<and>
             (\<forall>k \<in> dom (store sh5). k \<noteq> lru \<longrightarrow>
                since_touch (touch_trace (new_Shard C5) ops5) k
                  < since_touch (touch_trace (new_Shard C5) ops5) lru)))"
proof (intro conjI impI)
  assume a: "0 < C \<and> distinct (map fst kvs) \<and> length kvs = Suc C"
  then have pos: "0 < C" and d: "distinct (map fst kvs)" and len: "length kvs = Suc C" by simp_all
  from putBatch_overflow[OF pos d len] obtain sh where
    b: "putBatch (new_Shard C) kvs = Inr sh"
    and k: "recencyKeys sh = rev (map fst (tl kvs))"
    and m: "contents sh = (map_of kvs)(fst (hd kvs) := None)"
    by blast
  have "dom (store sh) = dom ((map_of kvs)(fst (hd kvs) := None))"
    using m dom_contents[of sh] by simp
  then have dm: "dom (store sh) = fst ` set kvs - {fst (hd kvs)}"
    by (simp add: dom_map_of_conv_image_fst)
  then have "store sh (fst (hd kvs)) = None" by blast
  then have g: "getFromShard sh (fst (hd kvs)) v = Inr (sh, v, False)"
    by (simp add: getFromShard_def)
  from b dm m k g show "\<exists>sh. putBatch (new_Shard C) kvs = Inr sh \<and>
            dom (store sh) = fst ` set kvs - {fst (hd kvs)} \<and>
            contents sh = (map_of kvs)(fst (hd kvs) := None) \<and>
            recencyKeys sh = rev (map fst (tl kvs)) \<and>
            getFromShard sh (fst (hd kvs)) v = Inr (sh, v, False)"
    by blast
next
  show "\<exists>sh. runOps (new_Shard 2) [Put ''A'' ''1'', Put ''B'' ''2'', Put ''C'' ''3''] = Inr sh \<and>
         dom (store sh) = {''B'', ''C''} \<and>
         getFromShard sh ''A'' v = Inr (sh, v, False)"
    by (simp add: eval_defs) auto
next
  show "\<exists>sh. runOps (new_Shard 2) [Put ''A'' ''1'', Put ''B'' ''2'', Get ''A'' v, Put ''C'' ''3''] = Inr sh \<and>
         dom (store sh) = {''A'', ''C''} \<and> recencyKeys sh = [''C'', ''A''] \<and>
         contents sh ''A'' = Some ''1'' \<and> contents sh ''B'' = None \<and>
         contents sh ''C'' = Some ''3''"
    by (simp add: eval_defs) auto
next
  show "\<exists>sh. runOps (new_Shard 2) [Put ''A'' ''1'', Put ''B'' ''2'', Put ''A'' ''10'', Put ''C'' ''3''] = Inr sh \<and>
         dom (store sh) = {''A'', ''C''} \<and> recencyKeys sh = [''C'', ''A''] \<and>
         contents sh ''A'' = Some ''10'' \<and> contents sh ''B'' = None"
    by (simp add: eval_defs) auto
next
  show "\<exists>sh. runOps (new_Shard 3)
           [Put ''A'' ''1'', Put ''B'' ''2'', Put ''C'' ''3'', Get ''A'' v, Put ''D'' ''4''] = Inr sh \<and>
         dom (store sh) = {''A'', ''C'', ''D''} \<and> recencyKeys sh = [''D'', ''A'', ''C''] \<and>
         contents sh ''B'' = None"
    by (simp add: eval_defs) auto
next
  assume "shard_inv sh0 \<and> store sh0 key = Some e"
  then have i: "shard_inv sh0" and e: "store sh0 key = Some e" by simp_all
  from get_present_abs[OF i e, of v]
  show "\<exists>sh'. getFromShard sh0 key v = Inr (sh', entry_value e, True) \<and>
             recencyKeys sh' = key # filter (\<lambda>k. k \<noteq> key) (recencyKeys sh0) \<and>
             contents sh' = contents sh0"
    by blast
next
  assume "shard_inv sh1 \<and> store sh1 k1 = Some e1"
  then have i: "shard_inv sh1" and e: "store sh1 k1 = Some e1" by simp_all
  from put_existing_abs[OF i e, of v1]
  show "\<exists>sh'. putInShard sh1 k1 v1 = Inr (sh', True) \<and>
             recencyKeys sh' = k1 # filter (\<lambda>k. k \<noteq> k1) (recencyKeys sh1) \<and>
             contents sh' = (contents sh1)(k1 \<mapsto> v1) \<and>
             dom (store sh') = dom (store sh1)"
    by blast
next
  assume "shard_inv sh2 \<and> store sh2 k2 = None \<and> capacity sh2 \<le> card (dom (store sh2)) \<and>
    0 < capacity sh2"
  then have i: "shard_inv sh2" and e: "store sh2 k2 = None"
    and c: "capacity sh2 \<le> card (dom (store sh2))" and p: "0 < capacity sh2" by simp_all
  show "\<exists>sh'. putInShard sh2 k2 v2 = Inr (sh', True) \<and>
             recencyKeys sh' = k2 # butlast (recencyKeys sh2) \<and>
             contents sh' = ((contents sh2)(last (recencyKeys sh2) := None))(k2 \<mapsto> v2) \<and>
             dom (store sh') = insert k2 (dom (store sh2) - {last (recencyKeys sh2)}) \<and>
             last (recencyKeys sh2) \<in> dom (store sh2)"
    by (rule put_new_full_dom[OF i e c p])
next
  assume "shard_inv sh3 \<and> store sh3 k3 = None \<and> card (dom (store sh3)) < capacity sh3"
  then have i: "shard_inv sh3" and e: "store sh3 k3 = None"
    and c: "card (dom (store sh3)) < capacity sh3" by simp_all
  show "\<exists>sh'. putInShard sh3 k3 v3 = Inr (sh', True) \<and>
             recencyKeys sh' = k3 # recencyKeys sh3 \<and>
             contents sh' = (contents sh3)(k3 \<mapsto> v3) \<and>
             dom (store sh') = insert k3 (dom (store sh3))"
    by (rule put_new_room_dom[OF i e c])
next
  assume "runOps (new_Shard C4) ops = Inr sh4"
  then show "touch_order (touch_trace (new_Shard C4) ops) (recencyKeys sh4)"
    by (rule runOps_touch_order)
next
  assume "runOps (new_Shard C5) ops5 = Inr sh5 \<and> 0 < C5 \<and> store sh5 k5 = None \<and>
    capacity sh5 \<le> card (dom (store sh5))"
  then have r: "runOps (new_Shard C5) ops5 = Inr sh5" and p: "0 < C5"
    and e: "store sh5 k5 = None" and c: "capacity sh5 \<le> card (dom (store sh5))" by simp_all
  show "\<exists>sh' lru. runOps (new_Shard C5) (ops5 @ [Put k5 v5]) = Inr sh' \<and>
             lru = last (recencyKeys sh5) \<and> lru \<in> dom (store sh5) \<and>
             dom (store sh') = insert k5 (dom (store sh5) - {lru}) \<and>
             (\<forall>k \<in> dom (store sh5). k \<noteq> lru \<longrightarrow>
                since_touch (touch_trace (new_Shard C5) ops5) k
                  < since_touch (touch_trace (new_Shard C5) ops5) lru)"
    by (rule run_then_evict[OF r p e c])
qed

theorem lru_eviction_witness:
  "0 < (2::nat) \<and> distinct (map fst [(''A'', ''1''), (''B'', ''2''), (''C'', ''3'')]) \<and>
   length [(''A'', ''1''), (''B'', ''2''), (''C'', ''3'')] = Suc 2 \<and>
   (\<exists>sh. putBatch (new_Shard 2) [(''A'', ''1''), (''B'', ''2''), (''C'', ''3'')] = Inr sh \<and>
         dom (store sh) = {''B'', ''C''} \<and> recencyKeys sh = [''C'', ''B''] \<and>
         getFromShard sh ''A'' ''old'' = Inr (sh, ''old'', False)) \<and>
   shard_inv example_two_shard \<and>
   store example_two_shard ''A'' = Some \<lparr>entry_value = ''1'', recencyIt = At 1\<rparr> \<and>
   (\<exists>sh'. getFromShard example_two_shard ''A'' ''old'' = Inr (sh', ''1'', True) \<and>
          recencyKeys sh' = [''A'', ''B'']) \<and>
   (\<exists>sh'. putInShard example_two_shard ''A'' ''10'' = Inr (sh', True) \<and>
          recencyKeys sh' = [''A'', ''B''] \<and> contents sh' ''A'' = Some ''10'') \<and>
   store example_two_shard ''C'' = None \<and>
   capacity example_two_shard \<le> card (dom (store example_two_shard)) \<and>
   0 < capacity example_two_shard \<and>
   (\<exists>sh'. putInShard example_two_shard ''C'' ''3'' = Inr (sh', True) \<and>
          recencyKeys sh' = [''C'', ''B''] \<and> dom (store sh') = {''B'', ''C''}) \<and>
   shard_inv (new_Shard 2) \<and> store (new_Shard 2) ''A'' = None \<and>
   card (dom (store (new_Shard 2))) < capacity (new_Shard 2) \<and>
   (\<exists>sh'. putInShard (new_Shard 2) ''A'' ''1'' = Inr (sh', True) \<and>
          recencyKeys sh' = [''A''] \<and> dom (store sh') = {''A''}) \<and>
   runOps (new_Shard 2) [Put ''A'' ''1'', Put ''B'' ''2'', Get ''A'' ''old''] = Inr example_read_shard \<and>
   touch_order [Some ''A'', Some ''B'', Some ''A''] [''A'', ''B''] \<and>
   store example_read_shard ''C'' = None \<and>
   capacity example_read_shard \<le> card (dom (store example_read_shard)) \<and>
   (\<exists>sh'. runOps (new_Shard 2)
            ([Put ''A'' ''1'', Put ''B'' ''2'', Get ''A'' ''old''] @ [Put ''C'' ''3'']) = Inr sh' \<and>
          dom (store sh') = {''A'', ''C''} \<and>
          since_touch [Some ''A'', Some ''B'', Some ''A''] ''A''
            < since_touch [Some ''A'', Some ''B'', Some ''A''] ''B'')"
proof -
  let ?kvs = "[(''A'', ''1''), (''B'', ''2''), (''C'', ''3'')]"
  let ?e = "\<lparr>entry_value = ''1'', recencyIt = At 1\<rparr>"
  let ?ops = "[Put ''A'' ''1'', Put ''B'' ''2'', Get ''A'' ''old'']"
  let ?tr = "[Some ''A'', Some ''B'', Some ''A'']"
  note c2 = conjunct2
  have h1: "0 < (2::nat) \<and> distinct (map fst ?kvs) \<and> length ?kvs = Suc 2" by simp
  have h6: "shard_inv example_two_shard \<and> store example_two_shard ''A'' = Some ?e"
    using example_two_shard_inv by (simp add: example_two_shard_def)
  have dm2: "dom (store example_two_shard) = {''A'', ''B''}"
    by (auto simp: example_two_shard_def)
  then have cd2: "card (dom (store example_two_shard)) = 2" by simp
  have k2: "recencyKeys example_two_shard = [''B'', ''A'']"
    by (simp add: recencyKeys_def example_two_shard_def)
  have n8: "store example_two_shard ''C'' = None" by (simp add: example_two_shard_def)
  have f8: "capacity example_two_shard \<le> card (dom (store example_two_shard))"
    unfolding cd2 by (simp add: example_two_shard_def)
  have p8: "0 < capacity example_two_shard" by (simp add: example_two_shard_def)
  have h8: "shard_inv example_two_shard \<and> store example_two_shard ''C'' = None \<and>
            capacity example_two_shard \<le> card (dom (store example_two_shard)) \<and>
            0 < capacity example_two_shard"
    using example_two_shard_inv n8 f8 p8 by (intro conjI)
  have n9: "store (new_Shard 2) ''A'' = None" by (simp add: new_Shard_def)
  have r9: "card (dom (store (new_Shard 2))) < capacity (new_Shard 2)" by (simp add: new_Shard_def)
  have h9: "shard_inv (new_Shard 2) \<and> store (new_Shard 2) ''A'' = None \<and>
            card (dom (store (new_Shard 2))) < capacity (new_Shard 2)"
    using new_Shard_inv[of 2] n9 r9 by (intro conjI)
  note h10 = example_read_shard_run
  have dm5: "dom (store example_read_shard) = {''A'', ''B''}"
    by (auto simp: example_read_shard_def)
  then have cd5: "card (dom (store example_read_shard)) = 2" by simp
  have k5: "recencyKeys example_read_shard = [''A'', ''B'']"
    by (simp add: recencyKeys_def example_read_shard_def)
  have n11: "store example_read_shard ''C'' = None" by (simp add: example_read_shard_def)
  have f11: "capacity example_read_shard \<le> card (dom (store example_read_shard))"
    unfolding cd5 by (simp add: example_read_shard_def)
  have h11: "runOps (new_Shard 2) ?ops = Inr example_read_shard \<and> 0 < (2::nat) \<and>
             store example_read_shard ''C'' = None \<and>
             capacity example_read_shard \<le> card (dom (store example_read_shard))"
    using h10 n11 f11 by (intro conjI) simp_all
  note t = lru_eviction[where C=2 and kvs="?kvs" and v="''old''"
      and ?sh0.0=example_two_shard and key="''A''" and e="?e"
      and ?sh1.0=example_two_shard and ?k1.0="''A''" and ?e1.0="?e" and ?v1.0="''10''"
      and ?sh2.0=example_two_shard and ?k2.0="''C''" and ?v2.0="''3''"
      and ?sh3.0="new_Shard 2" and ?k3.0="''A''" and ?v3.0="''1''"
      and ?C4.0=2 and ops="?ops" and ?sh4.0=example_read_shard
      and ?C5.0=2 and ?ops5.0="?ops" and ?sh5.0=example_read_shard and ?k5.0="''C''" and ?v5.0="''3''"]
  note t1 = t[THEN conjunct1, rule_format, OF h1]
  note t6 = t[THEN c2, THEN c2, THEN c2, THEN c2, THEN c2, THEN conjunct1, rule_format, OF h6]
  note t7 = t[THEN c2, THEN c2, THEN c2, THEN c2, THEN c2, THEN c2, THEN conjunct1, rule_format, OF h6]
  note t8 = t[THEN c2, THEN c2, THEN c2, THEN c2, THEN c2, THEN c2, THEN c2, THEN conjunct1,
      rule_format, OF h8]
  note t9 = t[THEN c2, THEN c2, THEN c2, THEN c2, THEN c2, THEN c2, THEN c2, THEN c2, THEN conjunct1,
      rule_format, OF h9]
  note t10 = t[THEN c2, THEN c2, THEN c2, THEN c2, THEN c2, THEN c2, THEN c2, THEN c2, THEN c2,
      THEN conjunct1, rule_format, OF h10]
  note t11 = t[THEN c2, THEN c2, THEN c2, THEN c2, THEN c2, THEN c2, THEN c2, THEN c2, THEN c2,
      THEN c2, rule_format, OF h11]
  from t1 obtain sh where
    b: "putBatch (new_Shard 2) ?kvs = Inr sh"
    and d: "dom (store sh) = fst ` set ?kvs - {fst (hd ?kvs)}"
    and k: "recencyKeys sh = rev (map fst (tl ?kvs))"
    and g: "getFromShard sh (fst (hd ?kvs)) ''old'' = Inr (sh, ''old'', False)"
    by (elim exE conjE)
  from d have d': "dom (store sh) = {''B'', ''C''}" by auto
  from k have k': "recencyKeys sh = [''C'', ''B'']" by simp
  from g have g': "getFromShard sh ''A'' ''old'' = Inr (sh, ''old'', False)" by simp
  have e1: "\<exists>sh. putBatch (new_Shard 2) ?kvs = Inr sh \<and>
         dom (store sh) = {''B'', ''C''} \<and> recencyKeys sh = [''C'', ''B''] \<and>
         getFromShard sh ''A'' ''old'' = Inr (sh, ''old'', False)"
    using b d' k' g' by (intro exI[of _ sh] conjI)
  from t6 obtain sh6 where
    r6: "getFromShard example_two_shard ''A'' ''old'' = Inr (sh6, entry_value ?e, True)"
    and rk6: "recencyKeys sh6 = ''A'' # filter (\<lambda>k. k \<noteq> ''A'') (recencyKeys example_two_shard)"
    by (elim exE conjE)
  from r6 have r6': "getFromShard example_two_shard ''A'' ''old'' = Inr (sh6, ''1'', True)" by simp
  from rk6 have rk6': "recencyKeys sh6 = [''A'', ''B'']" by (simp add: k2)
  have e6: "\<exists>sh'. getFromShard example_two_shard ''A'' ''old'' = Inr (sh', ''1'', True) \<and>
          recencyKeys sh' = [''A'', ''B'']"
    using r6' rk6' by (intro exI[of _ sh6] conjI)
  from t7 obtain sh7 where
    r7: "putInShard example_two_shard ''A'' ''10'' = Inr (sh7, True)"
    and rk7: "recencyKeys sh7 = ''A'' # filter (\<lambda>k. k \<noteq> ''A'') (recencyKeys example_two_shard)"
    and m7: "contents sh7 = (contents example_two_shard)(''A'' \<mapsto> ''10'')"
    by (elim exE conjE)
  from rk7 have rk7': "recencyKeys sh7 = [''A'', ''B'']" by (simp add: k2)
  from m7 have m7': "contents sh7 ''A'' = Some ''10''" by simp
  have e7: "\<exists>sh'. putInShard example_two_shard ''A'' ''10'' = Inr (sh', True) \<and>
          recencyKeys sh' = [''A'', ''B''] \<and> contents sh' ''A'' = Some ''10''"
    using r7 rk7' m7' by (intro exI[of _ sh7] conjI)
  from t8 obtain sh8 where
    r8: "putInShard example_two_shard ''C'' ''3'' = Inr (sh8, True)"
    and rk8: "recencyKeys sh8 = ''C'' # butlast (recencyKeys example_two_shard)"
    and d8: "dom (store sh8) = insert ''C'' (dom (store example_two_shard) - {last (recencyKeys example_two_shard)})"
    by (elim exE conjE)
  from rk8 have rk8': "recencyKeys sh8 = [''C'', ''B'']" by (simp add: k2)
  from d8 have d8': "dom (store sh8) = {''B'', ''C''}" unfolding k2 dm2 by auto
  have e8: "\<exists>sh'. putInShard example_two_shard ''C'' ''3'' = Inr (sh', True) \<and>
          recencyKeys sh' = [''C'', ''B''] \<and> dom (store sh') = {''B'', ''C''}"
    using r8 rk8' d8' by (intro exI[of _ sh8] conjI)
  from t9 obtain sh9 where
    r9': "putInShard (new_Shard 2) ''A'' ''1'' = Inr (sh9, True)"
    and rk9: "recencyKeys sh9 = ''A'' # recencyKeys (new_Shard 2)"
    and d9: "dom (store sh9) = insert ''A'' (dom (store (new_Shard 2)))"
    by (elim exE conjE)
  from rk9 have rk9': "recencyKeys sh9 = [''A'']" by (simp add: recencyKeys_def new_Shard_def)
  from d9 have d9': "dom (store sh9) = {''A''}" by (simp add: new_Shard_def)
  have e9: "\<exists>sh'. putInShard (new_Shard 2) ''A'' ''1'' = Inr (sh', True) \<and>
          recencyKeys sh' = [''A''] \<and> dom (store sh') = {''A''}"
    using r9' rk9' d9' by (intro exI[of _ sh9] conjI)
  from t10 have e10: "touch_order ?tr [''A'', ''B'']"
    by (simp only: example_read_shard_trace k5)
  from t11 obtain sh11 lru where
    r11: "runOps (new_Shard 2) (?ops @ [Put ''C'' ''3'']) = Inr sh11"
    and l11: "lru = last (recencyKeys example_read_shard)"
    and d11: "dom (store sh11) = insert ''C'' (dom (store example_read_shard) - {lru})"
    and o11: "\<forall>k \<in> dom (store example_read_shard). k \<noteq> lru \<longrightarrow>
                since_touch (touch_trace (new_Shard 2) ?ops) k
                  < since_touch (touch_trace (new_Shard 2) ?ops) lru"
    by (elim exE conjE)
  from l11 have l11': "lru = ''B''" by (simp add: k5)
  from d11 have d11': "dom (store sh11) = {''A'', ''C''}" unfolding l11' dm5 by auto
  from o11 have o11': "since_touch ?tr ''A'' < since_touch ?tr ''B''"
    unfolding l11' dm5 example_read_shard_trace by simp
  have e11: "\<exists>sh'. runOps (new_Shard 2) (?ops @ [Put ''C'' ''3'']) = Inr sh' \<and>
          dom (store sh') = {''A'', ''C''} \<and>
          since_touch ?tr ''A'' < since_touch ?tr ''B''"
    using r11 d11' o11' by (intro exI[of _ sh11] conjI)
  show ?thesis
    using h1 e1 h6 e6 e7 n8 f8 p8 e8 h9 e9 h10 e10 n11 f11 e11
    by (intro conjI) simp_all
qed

subsection \<open>Putting a key that exists\<close>

text \<open>
  C4. On a well-formed shard, a put of a key that is present returns, stores the new
  value, makes the key the front key with the other keys in their order, and removes no
  key: the key set, the size of the index and the length of the recency list are
  unchanged, also when the shard is full. With capacity 2, putting \<open>A = 1\<close>, \<open>B = 2\<close>,
  \<open>A = 10\<close>, \<open>C = 3\<close> evicts \<open>B\<close> and leaves \<open>A = 10\<close> and \<open>C = 3\<close>.
\<close>

theorem put_existing_overwrites:
  "(shard_inv sh \<and> store sh key = Some e \<longrightarrow>
      (\<exists>sh'. putInShard sh key v = Inr (sh', True) \<and>
             contents sh' = (contents sh)(key \<mapsto> v) \<and>
             recencyKeys sh' = key # filter (\<lambda>k. k \<noteq> key) (recencyKeys sh) \<and>
             dom (store sh') = dom (store sh) \<and>
             card (dom (store sh')) = card (dom (store sh)) \<and>
             length (recencyList sh') = length (recencyList sh) \<and>
             capacity sh' = capacity sh)) \<and>
   (\<exists>sh'. runOps (new_Shard 2) [Put ''A'' ''1'', Put ''B'' ''2'', Put ''A'' ''10'', Put ''C'' ''3''] = Inr sh' \<and>
          dom (store sh') = {''A'', ''C''} \<and> recencyKeys sh' = [''C'', ''A''] \<and>
          contents sh' ''A'' = Some ''10'' \<and> contents sh' ''B'' = None \<and>
          contents sh' ''C'' = Some ''3'')"
proof (intro conjI impI)
  assume "shard_inv sh \<and> store sh key = Some e"
  then have i: "shard_inv sh" and e: "store sh key = Some e" by simp_all
  from put_existing_abs[OF i e, of v] obtain sh' where
    p: "putInShard sh key v = Inr (sh', True)" and i': "shard_inv sh'"
    and c: "capacity sh' = capacity sh"
    and k: "recencyKeys sh' = key # filter (\<lambda>k. k \<noteq> key) (recencyKeys sh)"
    and m: "contents sh' = (contents sh)(key \<mapsto> v)"
    and d: "dom (store sh') = dom (store sh)"
    by blast
  from d have cd: "card (dom (store sh')) = card (dom (store sh))" by simp
  with inv_card[OF i] inv_card[OF i'] have l: "length (recencyList sh') = length (recencyList sh)"
    by simp
  from p m k d cd l c
  show "\<exists>sh'. putInShard sh key v = Inr (sh', True) \<and>
             contents sh' = (contents sh)(key \<mapsto> v) \<and>
             recencyKeys sh' = key # filter (\<lambda>k. k \<noteq> key) (recencyKeys sh) \<and>
             dom (store sh') = dom (store sh) \<and>
             card (dom (store sh')) = card (dom (store sh)) \<and>
             length (recencyList sh') = length (recencyList sh) \<and>
             capacity sh' = capacity sh"
    by blast
next
  show "\<exists>sh'. runOps (new_Shard 2) [Put ''A'' ''1'', Put ''B'' ''2'', Put ''A'' ''10'', Put ''C'' ''3''] = Inr sh' \<and>
          dom (store sh') = {''A'', ''C''} \<and> recencyKeys sh' = [''C'', ''A''] \<and>
          contents sh' ''A'' = Some ''10'' \<and> contents sh' ''B'' = None \<and>
          contents sh' ''C'' = Some ''3''"
    by (simp add: eval_defs) auto
qed

theorem put_existing_overwrites_witness:
  "shard_inv example_two_shard \<and>
   store example_two_shard ''A'' = Some \<lparr>entry_value = ''1'', recencyIt = At 1\<rparr> \<and>
   capacity example_two_shard \<le> card (dom (store example_two_shard)) \<and>
   (\<exists>sh'. putInShard example_two_shard ''A'' ''10'' = Inr (sh', True) \<and>
          contents sh' ''A'' = Some ''10'' \<and> contents sh' ''B'' = Some ''2'' \<and>
          recencyKeys sh' = [''A'', ''B''] \<and>
          dom (store sh') = {''A'', ''B''} \<and> card (dom (store sh')) = 2)"
proof -
  let ?e = "\<lparr>entry_value = ''1'', recencyIt = At 1\<rparr>"
  have h: "shard_inv example_two_shard \<and> store example_two_shard ''A'' = Some ?e"
    using example_two_shard_inv by (simp add: example_two_shard_def)
  have dm: "dom (store example_two_shard) = {''A'', ''B''}"
    by (auto simp: example_two_shard_def)
  then have cd: "card (dom (store example_two_shard)) = 2" by simp
  have full: "capacity example_two_shard \<le> card (dom (store example_two_shard))"
    unfolding cd by (simp add: example_two_shard_def)
  note t = put_existing_overwrites[of example_two_shard "''A''" ?e "''10''",
      THEN conjunct1, rule_format, OF h]
  from t obtain sh' where
    p: "putInShard example_two_shard ''A'' ''10'' = Inr (sh', True)"
    and m: "contents sh' = (contents example_two_shard)(''A'' \<mapsto> ''10'')"
    and k: "recencyKeys sh' = ''A'' # filter (\<lambda>k. k \<noteq> ''A'') (recencyKeys example_two_shard)"
    and d: "dom (store sh') = dom (store example_two_shard)"
    and c: "card (dom (store sh')) = card (dom (store example_two_shard))"
    by (elim exE conjE)
  from m have m1: "contents sh' ''A'' = Some ''10''" and m2: "contents sh' ''B'' = Some ''2''"
    by (simp_all add: contents_def example_two_shard_def)
  from k have k': "recencyKeys sh' = [''A'', ''B'']"
    by (simp add: recencyKeys_def example_two_shard_def)
  from d dm have d': "dom (store sh') = {''A'', ''B''}" by simp
  from c cd have c': "card (dom (store sh')) = 2" by simp
  have e1: "\<exists>sh'. putInShard example_two_shard ''A'' ''10'' = Inr (sh', True) \<and>
          contents sh' ''A'' = Some ''10'' \<and> contents sh' ''B'' = Some ''2'' \<and>
          recencyKeys sh' = [''A'', ''B''] \<and>
          dom (store sh') = {''A'', ''B''} \<and> card (dom (store sh')) = 2"
    using p m1 m2 k' d' c' by (intro exI[of _ sh'] conjI)
  from h full e1 show ?thesis by (intro conjI) simp_all
qed

subsection \<open>Deleting a key\<close>

text \<open>
  C6. On a well-formed store, \<open>del\<close> returns, and returns true exactly when the key is
  in the index of the shard it is routed to (which, when every key sits in the shard it
  is routed to, is to say: in the store). When it returns true the key is gone from the
  index and from the recency list of that shard, the other keys keep their order and
  values, and the other shards are untouched; when it returns false the store is
  unchanged.
\<close>

theorem del_iff_present:
  assumes "store_inv s"
  shows "\<exists>i s' b. shardIndex hash s key = Inr i \<and> del hash s key = Inr (s', b) \<and>
     (b \<longleftrightarrow> key \<in> dom (store (shards s ! i))) \<and>
     (b \<longrightarrow> key \<notin> dom (store (shards s' ! i)) \<and>
            key \<notin> set (recencyKeys (shards s' ! i)) \<and>
            recencyKeys (shards s' ! i) = filter (\<lambda>k. k \<noteq> key) (recencyKeys (shards s ! i)) \<and>
            contents (shards s' ! i) = (contents (shards s ! i))(key := None) \<and>
            length (shards s') = length (shards s) \<and>
            (\<forall>j. j \<noteq> i \<longrightarrow> shards s' ! j = shards s ! j)) \<and>
     (\<not> b \<longrightarrow> s' = s) \<and>
     (keys_routed hash s \<longrightarrow> (b \<longleftrightarrow> (\<exists>j < length (shards s). key \<in> dom (store (shards s ! j)))))"
proof -
  let ?i = "hash key mod length (shards s)"
  let ?sh = "shards s ! ?i"
  from assms have ne: "shards s \<noteq> []" by (simp add: store_inv_def)
  from shardIndex_returns[OF ne, of hash key] have ix: "shardIndex hash s key = Inr ?i"
    and lt: "?i < length (shards s)" by simp_all
  from store_inv_nth[OF assms lt] have inv: "shard_inv ?sh" .
  have g: "(key \<in> dom (store ?sh)) \<longleftrightarrow> (\<exists>j < length (shards s). key \<in> dom (store (shards s ! j)))"
    if kr: "keys_routed hash s"
  proof
    assume "key \<in> dom (store ?sh)"
    with lt show "\<exists>j < length (shards s). key \<in> dom (store (shards s ! j))" by (intro exI[of _ ?i]) simp
  next
    assume "\<exists>j < length (shards s). key \<in> dom (store (shards s ! j))"
    then obtain j where j: "j < length (shards s)" "key \<in> dom (store (shards s ! j))" by (elim exE conjE)
    with kr have "?i = j" unfolding keys_routed_def by simp
    with j show "key \<in> dom (store ?sh)" by simp
  qed
  show ?thesis
  proof (cases "store ?sh key")
    case None
    then have d: "delFromShard ?sh key = Inr (?sh, False)" by (simp add: delFromShard_def)
    have r: "del hash s key = Inr (s, False)" by (simp add: del_def ix d)
    have 5: "key \<notin> dom (store ?sh)" using None by auto
    show ?thesis
      apply (rule exI[of _ ?i], rule exI[of _ s], rule exI[of _ False])
      using ix r 5 g by simp
  next
    case (Some e)
    from del_present_abs[OF inv Some] obtain sh' where
      d: "delFromShard ?sh key = Inr (sh', True)" and i': "shard_inv sh'"
      and k: "recencyKeys sh' = filter (\<lambda>k. k \<noteq> key) (recencyKeys ?sh)"
      and m: "contents sh' = (contents ?sh)(key := None)"
      and n: "store sh' key = None"
      by blast
    let ?s' = "s\<lparr>shards := (shards s)[?i := sh']\<rparr>"
    have r: "del hash s key = Inr (?s', True)" by (simp add: del_def ix d)
    have at: "shards ?s' ! ?i = sh'" using lt by simp
    have 1: "key \<notin> dom (store (shards ?s' ! ?i))" using n at by auto
    have 2: "key \<notin> set (recencyKeys (shards ?s' ! ?i))" using k at by simp
    have 3: "\<forall>j. j \<noteq> ?i \<longrightarrow> shards ?s' ! j = shards s ! j" by simp
    have 4: "length (shards ?s') = length (shards s)" by simp
    have 5: "key \<in> dom (store ?sh)" using Some by auto
    show ?thesis
      apply (rule exI[of _ ?i], rule exI[of _ ?s'], rule exI[of _ True])
      using ix r 1 2 3 4 5 k m at g by simp
  qed
qed

theorem del_iff_present_witness:
  "store_inv example_store \<and> keys_routed (\<lambda>k. length k) example_store \<and>
   (\<exists>s'. del (\<lambda>k. length k) example_store ''A'' = Inr (s', True) \<and>
         recencyKeys (shards s' ! 1) = [''B''] \<and> contents (shards s' ! 1) ''A'' = None) \<and>
   del (\<lambda>k. length k) example_store ''ZZ'' = Inr (example_store, False)"
proof -
  note t1 = del_iff_present[OF example_store_inv, of "\<lambda>k. length k" "''A''"]
  note t2 = del_iff_present[OF example_store_inv, of "\<lambda>k. length k" "''ZZ''"]
  have i1: "shardIndex (\<lambda>k. length k) example_store ''A'' = Inr 1"
    by (simp add: shardIndex_def example_store_def)
  have i2: "shardIndex (\<lambda>k. length k) example_store ''ZZ'' = Inr 0"
    by (simp add: shardIndex_def example_store_def)
  have p1: "''A'' \<in> dom (store (shards example_store ! 1))"
    by (simp add: example_store_def example_two_shard_def)
  have p2: "''ZZ'' \<notin> dom (store (shards example_store ! 0))"
    by (simp add: example_store_def new_Shard_def)
  from t1 i1 p1 obtain s' where
    d: "del (\<lambda>k. length k) example_store ''A'' = Inr (s', True)"
    and k: "recencyKeys (shards s' ! 1) = filter (\<lambda>k. k \<noteq> ''A'') (recencyKeys (shards example_store ! 1))"
    and m: "contents (shards s' ! 1) = (contents (shards example_store ! 1))(''A'' := None)"
    by auto
  from k have k': "recencyKeys (shards s' ! 1) = [''B'']"
    by (simp add: example_store_def example_two_shard_def recencyKeys_def)
  from m have m': "contents (shards s' ! 1) ''A'' = None" by simp
  have e1: "\<exists>s'. del (\<lambda>k. length k) example_store ''A'' = Inr (s', True) \<and>
         recencyKeys (shards s' ! 1) = [''B''] \<and> contents (shards s' ! 1) ''A'' = None"
    using d k' m' by (intro exI[of _ s'] conjI)
  from t2 i2 p2 have e2: "del (\<lambda>k. length k) example_store ''ZZ'' = Inr (example_store, False)"
    by auto
  from example_store_inv example_store_routed e1 e2 show ?thesis by (intro conjI)
qed

subsection \<open>Batched put against single puts\<close>

text \<open>
  C5. On a well-formed store whose shards have a positive capacity, \<open>putMany\<close> and the
  single-key puts applied in the order of the sequence both return, and return the same
  store: the same keys, values and recency order in every shard. This holds for every
  sequence of pairs, so in particular for pairs with pairwise distinct keys. The store
  returned is again well formed, with as many shards.
\<close>

theorem putMany_put_each:
  assumes "store_inv s" and "positive_capacity s"
  shows "\<exists>s'. putMany hash s kvs = Inr s' \<and> put_each hash s kvs = Inr s' \<and>
              store_inv s' \<and> positive_capacity s' \<and> length (shards s') = length (shards s)"
proof -
  let ?n = "length (shards s)"
  let ?s' = "s\<lparr>shards := map (\<lambda>i. putBatch_result (shards s ! i) (routedTo hash ?n i kvs)) [0..<?n]\<rparr>"
  from assms(1) have ne: "shards s \<noteq> []" by (simp add: store_inv_def)
  have m: "putMany hash s kvs = Inr ?s'" by (rule putMany_routed[OF assms])
  have e: "put_each hash s kvs = Inr ?s'" by (rule put_each_routed[OF assms])
  have inv: "store_inv ?s'" "positive_capacity ?s'"
    using assms ne unfolding store_inv_def positive_capacity_def
    by (auto simp: putBatch_result_ok)
  from m e inv show ?thesis by simp
qed

theorem putMany_put_each_witness:
  "store_inv example_store \<and> positive_capacity example_store \<and>
   (\<exists>s'. putMany (\<lambda>k. length k) example_store
            [(''C'', ''3''), (''DD'', ''4''), (''A'', ''10''), (''E'', ''5'')] = Inr s' \<and>
         put_each (\<lambda>k. length k) example_store
            [(''C'', ''3''), (''DD'', ''4''), (''A'', ''10''), (''E'', ''5'')] = Inr s' \<and>
         map recencyKeys (shards s') = [[''DD''], [''E'', ''A'']])"
proof -
  let ?kvs = "[(''C'', ''3''), (''DD'', ''4''), (''A'', ''10''), (''E'', ''5'')]"
  from putMany_put_each[OF example_store_inv example_store_positive, of "\<lambda>k. length k" ?kvs]
  obtain s' where m: "putMany (\<lambda>k. length k) example_store ?kvs = Inr s'"
    and e: "put_each (\<lambda>k. length k) example_store ?kvs = Inr s'"
    by (elim exE conjE)
  have "\<exists>s''. put_each (\<lambda>k. length k) example_store ?kvs = Inr s'' \<and>
          map recencyKeys (shards s'') = [[''DD''], [''E'', ''A'']]"
    by (simp add: put_def shardIndex_def example_store_def example_two_shard_def eval_defs)
  with e have k: "map recencyKeys (shards s') = [[''DD''], [''E'', ''A'']]" by auto
  have "\<exists>s'. putMany (\<lambda>k. length k) example_store ?kvs = Inr s' \<and>
         put_each (\<lambda>k. length k) example_store ?kvs = Inr s' \<and>
         map recencyKeys (shards s') = [[''DD''], [''E'', ''A'']]"
    using m e k by (intro exI[of _ s'] conjI)
  with example_store_inv example_store_positive show ?thesis by (intro conjI)
qed

end
